theory Spec2Isabelle
  imports Complex_Main "HOL-Library.Word"
begin

unbundle bit_operations_syntax

section \<open>The Grover comparator of \<^verbatim>\<open>grover_comparator.py\<close>\<close>

text \<open>
  The class \<^verbatim>\<open>GroverComparator\<close> stores two integers, their difference, a register
  width and a quantum circuit. Its methods build an oracle instruction (a diagonal matrix),
  a diffuser instruction (a fixed gate sequence), and run the Grover iteration before
  returning the comparison of the difference with zero.

  Python integers are unbounded (\<open>int\<close>); widths, indices and sizes are never negative
  and are \<open>nat\<close>. Amplitudes are exact complex numbers: the rounding of the 64-bit floats
  of the simulator is not part of this model. Exceptions are values of a sum type.
\<close>

subsection \<open>Built-ins of the host language\<close>

text \<open>
  Python's \<^verbatim>\<open>int.bit_length()\<close>: the number of binary digits of the absolute value,
  \<open>0\<close> for zero.
\<close>

function bit_length :: "int \<Rightarrow> nat" where
  "bit_length x = (if x = 0 then 0 else Suc (bit_length (\<bar>x\<bar> div 2)))"
  by pat_completeness auto
termination
  by (relation "measure (\<lambda>x. nat \<bar>x\<bar>)") auto

declare bit_length.simps [simp del]

subsection \<open>Circuits\<close>

text \<open>
  A circuit is the list of the operations appended to it, in order. \<open>H\<close>, \<open>X\<close> and
  \<open>MCX\<close> are the library's Hadamard, NOT and multi-controlled NOT gates on numbered
  qubits, \<open>Unitary\<close> is a gate given by its matrix (here of integers, as
  \<^verbatim>\<open>np.eye(..., dtype=int)\<close> produces), \<open>Instruction\<close> is a named sub-circuit as
  \<^verbatim>\<open>to_instruction()\<close> returns it, and \<open>Measure q c\<close> measures qubit \<open>q\<close> into
  classical bit \<open>c\<close>.
\<close>

datatype gate =
    H nat
  | X nat
  | MCX "nat list" nat
  | Barrier
  | Unitary "int list list"
  | Instruction string "gate list"
  | Measure nat nat

datatype error = ConfigurationError | IndexError | CircuitError | TypeError | QiskitError

record comparator =
  number_1 :: int
  number_2 :: int
  diff :: int
  nqubits :: nat
  nstates :: nat
  qc :: "gate list"

subsection \<open>The constructor\<close>

text \<open>
  \<^verbatim>\<open>__init__\<close> fills the fields of the instance (\<open>new\<close>). It has no
  \<^verbatim>\<open>raise\<close> and always returns. The constructor call \<open>init\<close> has a sum for its
  result all the same, so that a failing construction can be told from a successful one;
  \<open>ConfigurationError\<close> is the name the specification gives to that failure, and no path
  of the source produces it.
\<close>

definition new :: "int \<Rightarrow> int \<Rightarrow> comparator" where
  "new a b =
     (let d = a - b;
          n = max (bit_length \<bar>d\<bar>) 2
      in \<lparr>number_1 = a, number_2 = b, diff = d, nqubits = n, nstates = 2 ^ n, qc = []\<rparr>)"

definition init :: "int \<Rightarrow> int \<Rightarrow> error + comparator" where
  "init a b = Inr (new a b)"

subsection \<open>The oracle\<close>

text \<open>\<^verbatim>\<open>np.eye(N, dtype=int)\<close>: the \<open>N \<times> N\<close> identity matrix as a list of rows.\<close>

definition eye :: "nat \<Rightarrow> int list list" where
  "eye N = map (\<lambda>r. map (\<lambda>c. if r = c then 1 else 0) [0..<N]) [0..<N]"

text \<open>The index written by \<^verbatim>\<open>i = abs(self.diff)\<close>.\<close>

definition marked_index :: "comparator \<Rightarrow> nat" where
  "marked_index c = nat \<bar>diff c\<bar>"

text \<open>
  \<^verbatim>\<open>gate_matrix[i][i] = -1\<close> raises \<^verbatim>\<open>IndexError\<close> when \<open>i\<close> is not below the
  size of the matrix (\<open>i\<close> is an absolute value, so it is never negative).
\<close>

definition create_comparison_oracle :: "comparator \<Rightarrow> error + gate" where
  "create_comparison_oracle c =
     (let gate_matrix = eye (2 ^ nqubits c);
          i = marked_index c
      in if i < length gate_matrix
         then Inr (Instruction ''Oracle(>=)''
                [Unitary (gate_matrix[i := (gate_matrix ! i)[i := - 1]])])
         else Inl IndexError)"

subsection \<open>The diffuser\<close>

text \<open>
  \<^verbatim>\<open>qc.h(range(n))\<close> and \<^verbatim>\<open>qc.x(range(n))\<close> append one gate per qubit, in
  increasing order.
\<close>

definition create_diffuser :: "comparator \<Rightarrow> gate" where
  "create_diffuser c =
     (let n = nqubits c
      in Instruction ''Diffuser''
           (map H [0..<n] @ map X [0..<n] @ [Barrier]
            @ [H (n - 1), MCX [0..<n - 1] (n - 1), H (n - 1)]
            @ [Barrier] @ map X [0..<n] @ map H [0..<n]))"

subsection \<open>The run\<close>

text \<open>
  \<^verbatim>\<open>int(np.floor(np.pi / 4 * np.sqrt(self.nstates)))\<close>. \<^verbatim>\<open>self.nstates\<close> is a Python
  integer; \<^verbatim>\<open>np.sqrt\<close> converts it to a 64-bit number, and raises \<^verbatim>\<open>TypeError\<close> for
  an integer that does not fit in 64 bits, that is from \<open>2 ^ 64\<close> on. Below that the
  count is the floor over the reals; it is never negative, so it is a natural number.
\<close>

definition niterations :: "nat \<Rightarrow> error + nat" where
  "niterations N =
     (if N < 2 ^ 64 then Inr (nat \<lfloor>pi / 4 * sqrt (real N)\<rfloor>) else Inl TypeError)"

text \<open>
  The loop \<^verbatim>\<open>for _ in range(niterations)\<close>: each round builds a new oracle and a new
  diffuser and appends them to the stored circuit. The instance is mutated in place, so
  the function returns it also when a round raises: with what was appended until then,
  and the exception.
\<close>

fun grover_iterations :: "nat \<Rightarrow> comparator \<Rightarrow> comparator \<times> error option" where
  "grover_iterations 0 c = (c, None)"
| "grover_iterations (Suc k) c =
     (case create_comparison_oracle c of
        Inl e \<Rightarrow> (c, Some e)
      | Inr oracle \<Rightarrow>
          grover_iterations k (c\<lparr>qc := qc c @ [oracle] @ [create_diffuser c]\<rparr>))"

text \<open>
  The classical bits of a circuit. \<^verbatim>\<open>QuantumCircuit(n)\<close> has none, and
  \<^verbatim>\<open>measure_all()\<close> is the only operation of this program that adds any: each call
  adds a new register with one bit for each measurement it appends. So the circuit has
  as many classical bits as measurements.
\<close>

fun is_measure :: "gate \<Rightarrow> bool" where
  "is_measure (Measure q c) = True"
| "is_measure g = False"

definition num_clbits :: "gate list \<Rightarrow> nat" where
  "num_clbits gs = length (filter is_measure gs)"

text \<open>
  \<^verbatim>\<open>measure_all()\<close> on a circuit of width \<open>n\<close> with the operations \<open>gs\<close>: it adds a
  register of \<open>n\<close> new classical bits, then appends a barrier and the measurement of each
  qubit \<open>q\<close> into the new bit \<open>q\<close> of that register, which is bit \<open>m + q\<close> of the circuit
  when it had \<open>m\<close> bits before.
\<close>

definition measure_all :: "nat \<Rightarrow> gate list \<Rightarrow> gate list" where
  "measure_all n gs = gs @ Barrier # map (\<lambda>q. Measure q (num_clbits gs + q)) [0..<n]"

text \<open>
  The sampler of the library. It takes as final the measurements at the end of the
  circuit, those that no gate follows (barriers apart), and raises \<^verbatim>\<open>QiskitError\<close>
  unless they write every classical bit of the circuit. Otherwise it delivers a
  quasi-distribution, which is a parameter here: the items of the dictionary as a list of
  pairs, in the order in which \<^verbatim>\<open>counts.items()\<close> yields them.
\<close>

fun final_clbits_rev :: "gate list \<Rightarrow> nat list" where
  "final_clbits_rev [] = []"
| "final_clbits_rev (Measure q c # gs) = c # final_clbits_rev gs"
| "final_clbits_rev (Barrier # gs) = final_clbits_rev gs"
| "final_clbits_rev (g # gs) = []"

definition final_clbits :: "gate list \<Rightarrow> nat list" where
  "final_clbits gs = final_clbits_rev (rev gs)"

definition sampler_run :: "gate list \<Rightarrow> (nat \<times> real) list \<Rightarrow> error + (nat \<times> real) list" where
  "sampler_run gs counts =
     (if set (final_clbits gs) = {0..<num_clbits gs} then Inr counts else Inl QiskitError)"

text \<open>
  The search for the most likely outcome. \<^verbatim>\<open>max_value\<close> starts at
  \<^verbatim>\<open>float('-inf')\<close>, below every number: \<open>None\<close> stands for it here, and for the
  \<^verbatim>\<open>None\<close> that \<^verbatim>\<open>max_key\<close> starts with.
\<close>

definition max_step :: "nat \<times> real \<Rightarrow> nat option \<times> real option \<Rightarrow> nat option \<times> real option" where
  "max_step kv m =
     (case kv of (key, val) \<Rightarrow>
        (case snd m of
           None \<Rightarrow> (Some key, Some val)
         | Some max_value \<Rightarrow> if val > max_value then (Some key, Some val) else m))"

definition most_likely :: "(nat \<times> real) list \<Rightarrow> nat option \<times> real option" where
  "most_likely counts = fold max_step counts (None, None)"

text \<open>
  \<^verbatim>\<open>check_larger_or_equal\<close>. The method mutates the instance, also when it raises: it
  returns the instance as the call leaves it, together with the boolean it returns or the
  exception it raises. \<open>counts\<close> is the quasi-distribution the sampler delivers when it
  accepts the circuit.
\<close>

definition check_larger_or_equal ::
  "comparator \<Rightarrow> (nat \<times> real) list \<Rightarrow> comparator \<times> (error + bool)" where
  "check_larger_or_equal c counts =
     (let c1 = c\<lparr>qc := qc c @ map H [0..<nqubits c]\<rparr>
      in case niterations (nstates c1) of
           Inl e \<Rightarrow> (c1, Inl e)
         | Inr k \<Rightarrow>
             (case grover_iterations k c1 of
                (c2, Some e) \<Rightarrow> (c2, Inl e)
              | (c2, None) \<Rightarrow>
                  (let c3 = c2\<lparr>qc := measure_all (nqubits c2) (qc c2)\<rparr>
                   in case sampler_run (qc c3) counts of
                        Inl e \<Rightarrow> (c3, Inl e)
                      | Inr cs \<Rightarrow>
                          (let (max_key, max_value) = most_likely cs
                           in (c3, Inr (diff c3 \<ge> 0))))))"

subsection \<open>State vectors\<close>

text \<open>
  What the gates do to the amplitudes is the library's part. A register of \<open>n\<close> qubits is
  a list of \<open>2 ^ n\<close> amplitudes; bit \<open>q\<close> of an index is the value of qubit \<open>q\<close> (the
  library's little-endian convention). The register starts in the basis state of index 0.
\<close>

definition ground :: "nat \<Rightarrow> complex list" where
  "ground n = map (\<lambda>k. if k = 0 then 1 else 0) [0..<2 ^ n]"

text \<open>
  The Hadamard gate on qubit \<open>q\<close> sends the pair of amplitudes \<open>(x, y)\<close> at two indices
  that differ in bit \<open>q\<close> only to \<open>((x + y) / \<surd>2, (x - y) / \<surd>2)\<close>.
\<close>

definition h_amp :: "nat \<Rightarrow> (nat \<Rightarrow> complex) \<Rightarrow> nat \<Rightarrow> complex" where
  "h_amp q f k =
     (if bit k q then f (flip_bit q k) - f k else f k + f (flip_bit q k))
       / complex_of_real (sqrt 2)"

definition x_amp :: "nat \<Rightarrow> (nat \<Rightarrow> complex) \<Rightarrow> nat \<Rightarrow> complex" where
  "x_amp q f k = f (flip_bit q k)"

definition mcx_amp :: "nat list \<Rightarrow> nat \<Rightarrow> (nat \<Rightarrow> complex) \<Rightarrow> nat \<Rightarrow> complex" where
  "mcx_amp cs t f k = (if list_all (bit k) cs then f (flip_bit t k) else f k)"

text \<open>The product of one row of an integer matrix with the vector of amplitudes.\<close>

definition dot :: "int list \<Rightarrow> complex list \<Rightarrow> complex" where
  "dot row v = sum_list (map2 (\<lambda>a x. complex_of_int a * x) row v)"

text \<open>
  The library rejects a gate on a qubit that the register does not have, a repeated qubit,
  and a matrix of the wrong shape (\<open>CircuitError\<close>); a measurement is no transform of the
  state vector and is rejected by the evolution of a state as well.
\<close>

fun apply_gate :: "gate \<Rightarrow> complex list \<Rightarrow> error + complex list"
  and apply_gates :: "gate list \<Rightarrow> complex list \<Rightarrow> error + complex list" where
  "apply_gate (H q) v =
     (if 2 ^ q < length v then Inr (map (h_amp q (nth v)) [0..<length v])
      else Inl CircuitError)"
| "apply_gate (X q) v =
     (if 2 ^ q < length v then Inr (map (x_amp q (nth v)) [0..<length v])
      else Inl CircuitError)"
| "apply_gate (MCX cs t) v =
     (if list_all (\<lambda>q. 2 ^ q < length v) (t # cs) \<and> distinct (t # cs)
      then Inr (map (mcx_amp cs t (nth v)) [0..<length v])
      else Inl CircuitError)"
| "apply_gate Barrier v = Inr v"
| "apply_gate (Unitary M) v =
     (if length M = length v \<and> list_all (\<lambda>row. length row = length v) M
      then Inr (map (\<lambda>row. dot row v) M)
      else Inl CircuitError)"
| "apply_gate (Instruction name body) v = apply_gates body v"
| "apply_gate (Measure q c) v = Inl CircuitError"
| "apply_gates [] v = Inr v"
| "apply_gates (g # gs) v =
     (case apply_gate g v of Inl e \<Rightarrow> Inl e | Inr w \<Rightarrow> apply_gates gs w)"

text \<open>The probability of each outcome and their total.\<close>

definition probabilities :: "complex list \<Rightarrow> real list" where
  "probabilities v = map (\<lambda>a. (cmod a)\<^sup>2) v"

definition total_probability :: "complex list \<Rightarrow> real" where
  "total_probability v = sum_list (probabilities v)"

text \<open>
  The states a circuit passes through: the state after each of its operations, in order,
  up to the first operation that fails.
\<close>

fun states_after :: "gate list \<Rightarrow> complex list \<Rightarrow> complex list list" where
  "states_after [] v = []"
| "states_after (g # gs) v =
     (case apply_gate g v of Inl e \<Rightarrow> [] | Inr w \<Rightarrow> w # states_after gs w)"

subsection \<open>Notions used in the statements\<close>

text \<open>
  The matrix the oracle wraps, by name: the identity of size \<open>N\<close> after the write of
  \<open>-1\<close> at row \<open>i\<close>, column \<open>i\<close>.
\<close>

definition oracle_matrix :: "nat \<Rightarrow> nat \<Rightarrow> int list list" where
  "oracle_matrix N i = (eye N)[i := (eye N ! i)[i := - 1]]"

text \<open>
  A row of a diagonal matrix: \<open>a\<close> in column \<open>r\<close>, zero elsewhere.
\<close>

definition diag_row :: "nat \<Rightarrow> nat \<Rightarrow> int \<Rightarrow> int list" where
  "diag_row N r a = map (\<lambda>c. if r = c then a else 0) [0..<N]"

text \<open>
  The product of a matrix with its transpose, entry by entry the product of two rows. An
  integer matrix is its own conjugate, so it is unitary when this product is the identity.
\<close>

definition gram :: "int list list \<Rightarrow> int list list" where
  "gram M = map (\<lambda>r. map (\<lambda>r'. sum_list (map2 (*) r r')) M) M"

definition unitary :: "int list list \<Rightarrow> bool" where
  "unitary M = (gram M = eye (length M))"

text \<open>
  The closed form of the specification: the reflection about the uniform superposition
  replaces every amplitude \<open>a\<close> by \<open>2 \<cdot> mean - a\<close>.
\<close>

definition mean :: "complex list \<Rightarrow> complex" where
  "mean v = sum_list v / of_nat (length v)"

definition reflect_about_mean :: "complex list \<Rightarrow> complex list" where
  "reflect_about_mean v = map (\<lambda>a. 2 * mean v - a) v"

subsection \<open>Notions used in the proofs\<close>

text \<open>
  A state vector of \<open>N\<close> amplitudes given by a function of the index, and the total
  probability of such a function over the indices below \<open>N\<close>.
\<close>

definition vec :: "nat \<Rightarrow> (nat \<Rightarrow> complex) \<Rightarrow> complex list" where
  "vec N f = map f [0..<N]"

definition norm2 :: "nat \<Rightarrow> (nat \<Rightarrow> complex) \<Rightarrow> real" where
  "norm2 N f = (\<Sum>k<N. (cmod (f k))\<^sup>2)"

text \<open>
  The permutation of the indices that the multi-controlled NOT gate performs.
\<close>

definition mcx_perm :: "nat list \<Rightarrow> nat \<Rightarrow> nat \<Rightarrow> nat" where
  "mcx_perm cs t k = (if list_all (bit k) cs then flip_bit t k else k)"

text \<open>
  The Hadamard gates and the NOT gates on the qubits \<open>0, \<dots>, m - 1\<close>, one after the
  other, on amplitudes as functions; the amplitudes of the basis state of index 0.
\<close>

primrec h_all :: "nat \<Rightarrow> (nat \<Rightarrow> complex) \<Rightarrow> nat \<Rightarrow> complex" where
  "h_all 0 f = f"
| "h_all (Suc m) f = h_amp m (h_all m f)"

primrec x_all :: "nat \<Rightarrow> (nat \<Rightarrow> complex) \<Rightarrow> nat \<Rightarrow> complex" where
  "x_all 0 f = f"
| "x_all (Suc m) f = x_amp m (x_all m f)"

definition delta0 :: "nat \<Rightarrow> complex" where
  "delta0 k = (if k = 0 then 1 else 0)"

text \<open>
  A gate preserves the total probability of the vectors of \<open>N\<close> amplitudes when it
  applies to each of them without error, keeps the length and keeps the total.
\<close>

definition preserving :: "nat \<Rightarrow> gate \<Rightarrow> bool" where
  "preserving N g \<longleftrightarrow>
     (\<forall>v. length v = N \<longrightarrow>
        (\<exists>w. apply_gate g v = Inr w \<and> length w = N
             \<and> total_probability w = total_probability v))"

section \<open>Properties\<close>

subsection \<open>The bit length\<close>

lemma bit_length_upper: "\<bar>x\<bar> < 2 ^ bit_length x"
proof (induction x rule: bit_length.induct)
  case (1 x)
  show ?case
  proof (cases "x = 0")
    case True then show ?thesis by (simp add: bit_length.simps)
  next
    case False
    with 1 have "\<bar>\<bar>x\<bar> div 2\<bar> < 2 ^ bit_length (\<bar>x\<bar> div 2)" by simp
    then have "\<bar>x\<bar> div 2 < 2 ^ bit_length (\<bar>x\<bar> div 2)" by simp
    then have "\<bar>x\<bar> < 2 * 2 ^ bit_length (\<bar>x\<bar> div 2)" by linarith
    with False show ?thesis by (subst bit_length.simps) simp
  qed
qed

lemma bit_length_lower: "x \<noteq> 0 \<Longrightarrow> 2 ^ (bit_length x - 1) \<le> \<bar>x\<bar>"
proof (induction x rule: bit_length.induct)
  case (1 x)
  show ?case
  proof (cases "\<bar>x\<bar> div 2 = 0")
    case True
    with 1 show ?thesis by (simp add: bit_length.simps[of x] bit_length.simps[of 0])
  next
    case False
    with 1 have "2 ^ (bit_length (\<bar>x\<bar> div 2) - 1) \<le> \<bar>\<bar>x\<bar> div 2\<bar>" by simp
    moreover have "bit_length (\<bar>x\<bar> div 2) \<noteq> 0" using False by (simp add: bit_length.simps[of "\<bar>x\<bar> div 2"])
    then obtain m where m: "bit_length (\<bar>x\<bar> div 2) = Suc m" by (cases "bit_length (\<bar>x\<bar> div 2)") auto
    ultimately have "2 ^ m \<le> \<bar>x\<bar> div 2" by simp
    then have "2 * 2 ^ m \<le> \<bar>x\<bar>" by linarith
    with 1 m show ?thesis by (simp add: bit_length.simps[of x])
  qed
qed

lemma bit_length_least: "bit_length x = (LEAST k. \<bar>x\<bar> < 2 ^ k)"
proof (rule Least_equality [symmetric])
  show "\<bar>x\<bar> < 2 ^ bit_length x" by (rule bit_length_upper)
next
  fix k assume k: "\<bar>x\<bar> < 2 ^ k"
  show "bit_length x \<le> k"
  proof (cases "x = 0")
    case True then show ?thesis by (simp add: bit_length.simps)
  next
    case False
    have "(2::int) ^ (bit_length x - 1) < 2 ^ k" using bit_length_lower[OF False] k by linarith
    then have "bit_length x - 1 < k" by (simp add: power_strict_increasing_iff)
    then show ?thesis by simp
  qed
qed



subsection \<open>The number of rounds\<close>

lemma arctan_le_arg: 
  fixes x :: real assumes "0 \<le> x" shows "arctan x \<le> x"
proof -
  have "(\<lambda>t. t - arctan t) 0 \<le> (\<lambda>t. t - arctan t) x"
  proof (rule DERIV_nonneg_imp_nondecreasing [OF assms])
    fix t :: real
    have "((\<lambda>t. t - arctan t) has_real_derivative (1 - inverse (1 + t\<^sup>2))) (at t)"
      by (auto intro!: derivative_eq_intros)
    moreover have "0 \<le> 1 - inverse (1 + t\<^sup>2)"
      by (simp add: inverse_le_1_iff)
    ultimately show "\<exists>y. ((\<lambda>t. t - arctan t) has_real_derivative y) (at t) \<and> 0 \<le> y"
      by blast
  qed
  then show ?thesis by simp
qed

lemma pi_upper: "pi < 13 / 4"
proof -
  have "arctan (1 / 5) \<le> 1 / 5" by (rule arctan_le_arg) simp
  moreover have "0 < arctan (1 / 239)" by simp
  ultimately show ?thesis using machin by linarith
qed

lemma pi_lower: "3 \<le> pi"
proof -
  have "sin (pi / 6) \<le> pi / 6" by (rule sin_x_le_x) simp
  then show ?thesis by (simp add: sin_30)
qed

lemma niterations_values:
  "niterations 4 = Inr 1" "niterations 16 = Inr 3" "niterations 256 = Inr 12"
proof -
  have s16: "sqrt 16 = 4" using real_sqrt_abs [of 4] by simp
  have s256: "sqrt 256 = 16" using real_sqrt_abs [of 16] by simp
  have "\<lfloor>pi / 4 * sqrt (real 4)\<rfloor> = 1"
    using pi_ge_two pi_half_less_two by (simp add: floor_eq_iff)
  then show "niterations 4 = Inr 1" by (simp add: niterations_def)
  have "\<lfloor>pi / 4 * sqrt (real 16)\<rfloor> = 3"
    using pi_lower pi_less_4 by (simp add: floor_eq_iff s16)
  then show "niterations 16 = Inr 3" by (simp add: niterations_def)
  have "\<lfloor>pi / 4 * sqrt (real 256)\<rfloor> = 12"
    using pi_lower pi_upper by (simp add: floor_eq_iff s256)
  then show "niterations 256 = Inr 12" by (simp add: niterations_def)
qed

subsection \<open>The circuit a call builds\<close>

lemma oracle_frame [simp]:
  "create_comparison_oracle (c\<lparr>qc := g\<rparr>) = create_comparison_oracle c"
  by (simp add: create_comparison_oracle_def marked_index_def)

lemma diffuser_frame [simp]:
  "create_diffuser (c\<lparr>qc := g\<rparr>) = create_diffuser c"
  by (simp add: create_diffuser_def)

lemma grover_iterations_appends:
  "create_comparison_oracle c = Inr oracle \<Longrightarrow>
   grover_iterations k c =
     (c\<lparr>qc := qc c @ concat (replicate k [oracle, create_diffuser c])\<rparr>, None)"
  by (induction k arbitrary: c) simp_all

lemma grover_iterations_raises:
  "create_comparison_oracle c = Inl e \<Longrightarrow>
   grover_iterations k c = (c, if k = 0 then None else Some e)"
  by (cases k) simp_all

lemma length_eye [simp]: "length (eye N) = N"
  by (simp add: eye_def)

lemma oracle_in_bounds:
  "marked_index c < 2 ^ nqubits c \<Longrightarrow>
   create_comparison_oracle c =
     Inr (Instruction ''Oracle(>=)'' [Unitary (oracle_matrix (2 ^ nqubits c) (marked_index c))])"
  by (simp add: create_comparison_oracle_def oracle_matrix_def Let_def)

lemma oracle_out_of_bounds:
  "\<not> marked_index c < 2 ^ nqubits c \<Longrightarrow> create_comparison_oracle c = Inl IndexError"
  by (simp add: create_comparison_oracle_def Let_def)

lemma marked_index_new: "marked_index (new a b) < 2 ^ nqubits (new a b)"
proof -
  have "\<bar>a - b\<bar> < 2 ^ bit_length \<bar>a - b\<bar>" using bit_length_upper [of "\<bar>a - b\<bar>"] by simp
  also have "\<dots> \<le> 2 ^ max (bit_length \<bar>a - b\<bar>) 2" by (rule power_increasing) simp_all
  finally have "\<bar>a - b\<bar> < 2 ^ max (bit_length \<bar>a - b\<bar>) 2" .
  then have "nat \<bar>a - b\<bar> < nat (2 ^ max (bit_length \<bar>a - b\<bar>) 2)" by simp
  then show ?thesis by (simp add: marked_index_def new_def Let_def nat_power_eq)
qed

lemma new_fields [simp]:
  "diff (new a b) = a - b"
  "nqubits (new a b) = max (bit_length \<bar>a - b\<bar>) 2"
  "nstates (new a b) = 2 ^ max (bit_length \<bar>a - b\<bar>) 2"
  "qc (new a b) = []"
  "number_1 (new a b) = a"
  "number_2 (new a b) = b"
  by (simp_all add: new_def Let_def)

lemma oracle_new:
  "create_comparison_oracle (new a b) =
     Inr (Instruction ''Oracle(>=)''
            [Unitary (oracle_matrix (2 ^ nqubits (new a b)) (marked_index (new a b)))])"
  by (rule oracle_in_bounds) (rule marked_index_new)

lemma bit_length_code_simps:
  "bit_length 0 = 0"
  "bit_length 1 = 1"
  "bit_length 2 = 2"
  by (simp_all add: bit_length.simps)

lemma bit_length_double: "x \<noteq> 0 \<Longrightarrow> bit_length (2 * x) = Suc (bit_length x)"
  by (subst bit_length.simps) (simp add: abs_mult bit_length.simps [of "\<bar>x\<bar>"] bit_length.simps [of x])

lemma bit_length_power2: "bit_length (2 ^ m) = Suc m"
  by (induction m) (simp_all add: bit_length_code_simps bit_length_double)

lemma bit_length_le_iff: "bit_length x \<le> k \<longleftrightarrow> \<bar>x\<bar> < 2 ^ k"
proof
  assume "bit_length x \<le> k"
  then have "(2::int) ^ bit_length x \<le> 2 ^ k" by (simp add: power_increasing)
  with bit_length_upper [of x] show "\<bar>x\<bar> < 2 ^ k" by linarith
next
  assume "\<bar>x\<bar> < 2 ^ k"
  then show "bit_length x \<le> k"
    unfolding bit_length_least by (rule Least_le)
qed

lemma nstates_new_small: "nstates (new a b) < 2 ^ 64 \<longleftrightarrow> \<bar>a - b\<bar> < 2 ^ 63"
proof -
  have p: "(2::nat) ^ m < 2 ^ 64 \<longleftrightarrow> m < 64" for m
    by (rule power_strict_increasing_iff) simp
  have "nstates (new a b) < 2 ^ 64 \<longleftrightarrow> max (bit_length \<bar>a - b\<bar>) 2 < 64"
    by (simp only: new_fields p)
  also have "\<dots> \<longleftrightarrow> bit_length \<bar>a - b\<bar> \<le> 63" by auto
  also have "\<dots> \<longleftrightarrow> \<bar>a - b\<bar> < 2 ^ 63"
    using bit_length_le_iff [of "\<bar>a - b\<bar>" 63] by simp
  finally show ?thesis .
qed

subsection \<open>Classical bits, final measurements and the sampler\<close>

lemma num_clbits_append [simp]: "num_clbits (xs @ ys) = num_clbits xs + num_clbits ys"
  by (simp add: num_clbits_def)

lemma num_clbits_Nil [simp]: "num_clbits [] = 0"
  by (simp add: num_clbits_def)

lemma num_clbits_H [simp]: "num_clbits (map H qs) = 0"
  by (induction qs) (simp_all add: num_clbits_def)

lemma num_clbits_rounds [simp]:
  "\<not> is_measure g \<Longrightarrow> \<not> is_measure h \<Longrightarrow> num_clbits (concat (replicate k [g, h])) = 0"
  by (induction k) (simp_all add: num_clbits_def)

lemma num_clbits_measurements [simp]:
  "num_clbits (Barrier # map (\<lambda>q. Measure q (f q)) qs) = length qs"
  by (induction qs) (simp_all add: num_clbits_def)

lemma diffuser_not_measure [simp]: "\<not> is_measure (create_diffuser c)"
  by (simp add: create_diffuser_def Let_def)

lemma oracle_not_measure: "create_comparison_oracle c = Inr oracle \<Longrightarrow> \<not> is_measure oracle"
  by (auto simp: create_comparison_oracle_def Let_def split: if_splits)

lemma final_clbits_rev_measurements:
  "final_clbits_rev (map (\<lambda>q. Measure q (f q)) qs @ rest) = map f qs @ final_clbits_rev rest"
  by (induction qs) simp_all

lemma final_clbits_measurements:
  "final_clbits (gs @ Barrier # map (\<lambda>q. Measure q (f q)) qs)
     = rev (map f qs) @ final_clbits gs"
  using final_clbits_rev_measurements [of f "rev qs" "Barrier # rev gs"]
  by (simp add: final_clbits_def rev_map)

lemma final_clbits_H [simp]: "final_clbits (gs @ [H q]) = []"
  by (simp add: final_clbits_def)

lemma final_clbits_Instruction [simp]: "final_clbits (gs @ [Instruction name body]) = []"
  by (simp add: final_clbits_def)

lemma diffuser_Instruction: "\<exists>body. create_diffuser c = Instruction ''Diffuser'' body"
  by (simp add: create_diffuser_def Let_def)

lemma final_clbits_before_measurement:
  assumes "0 < n"
  shows "final_clbits (gs @ map H [0..<n] @ concat (replicate k [g, create_diffuser c])) = []"
proof (cases k)
  case 0
  from assms obtain m where "n = Suc m" by (cases n) auto
  with 0 show ?thesis
    using final_clbits_H [of "gs @ map H [0..<m]" m] by simp
next
  case (Suc j)
  obtain body where d: "create_diffuser c = Instruction ''Diffuser'' body"
    using diffuser_Instruction by blast
  have "concat (replicate (Suc j) [g, create_diffuser c])
      = (concat (replicate j [g, create_diffuser c]) @ [g]) @ [create_diffuser c]"
    by (induction j) simp_all
  then show ?thesis
    using final_clbits_Instruction
      [of "gs @ map H [0..<n] @ concat (replicate j [g, create_diffuser c]) @ [g]"
          "''Diffuser''" body]
    by (simp add: Suc d)
qed

lemma sampler_after_measure_all:
  assumes "0 < n" and "\<not> is_measure g"
  shows "sampler_run
           (measure_all n (gs @ map H [0..<n] @ concat (replicate k [g, create_diffuser c])))
           counts
       = (if num_clbits gs = 0 then Inr counts else Inl QiskitError)"
proof -
  define body where "body = gs @ map H [0..<n] @ concat (replicate k [g, create_diffuser c])"
  define m where "m = num_clbits gs"
  have nb: "num_clbits body = m" using assms(2) by (simp add: body_def m_def)
  have fb: "final_clbits body = []"
    unfolding body_def by (rule final_clbits_before_measurement [OF assms(1)])
  have ma: "measure_all n body = body @ Barrier # map (\<lambda>q. Measure q (m + q)) [0..<n]"
    by (simp only: measure_all_def nb)
  have "final_clbits (measure_all n body) = rev (map (\<lambda>q. m + q) [0..<n])"
    by (simp only: ma final_clbits_measurements fb append_Nil2)
  then have f: "set (final_clbits (measure_all n body)) = {m..<m + n}"
    by (simp add: image_add_atLeastLessThan' add.commute)
  have t: "num_clbits (measure_all n body) = m + n"
    by (simp add: ma nb)
  have "{m..<m + n} = {0..<m + n} \<longleftrightarrow> m = 0"
  proof
    assume "{m..<m + n} = {0..<m + n}"
    moreover have "0 \<in> {0..<m + n}" using assms(1) by simp
    ultimately have "0 \<in> {m..<m + n}" by simp
    then show "m = 0" by simp
  qed simp
  then have "sampler_run (measure_all n body) counts
      = (if m = 0 then Inr counts else Inl QiskitError)"
    by (simp add: sampler_run_def f t)
  then show ?thesis by (simp only: body_def m_def)
qed

subsection \<open>What a call returns and leaves\<close>

lemma check_raises_TypeError:
  "\<not> nstates c < 2 ^ 64 \<Longrightarrow>
   check_larger_or_equal c counts = (c\<lparr>qc := qc c @ map H [0..<nqubits c]\<rparr>, Inl TypeError)"
  by (simp add: check_larger_or_equal_def niterations_def)

lemma check_result:
  assumes "create_comparison_oracle c = Inr oracle" and "nstates c < 2 ^ 64"
    and "0 < nqubits c"
  shows "check_larger_or_equal c counts =
     (c\<lparr>qc := qc c @ map H [0..<nqubits c]
                 @ concat (replicate (nat \<lfloor>pi / 4 * sqrt (real (nstates c))\<rfloor>)
                     [oracle, create_diffuser c])
                 @ Barrier # map (\<lambda>q. Measure q (num_clbits (qc c) + q)) [0..<nqubits c]\<rparr>,
      if num_clbits (qc c) = 0 then Inr (0 \<le> diff c) else Inl QiskitError)"
proof -
  define K where "K = nat \<lfloor>pi / 4 * sqrt (real (nstates c))\<rfloor>"
  define c1 where "c1 = c\<lparr>qc := qc c @ map H [0..<nqubits c]\<rparr>"
  define body where
    "body = qc c @ map H [0..<nqubits c] @ concat (replicate K [oracle, create_diffuser c])"
  define final where
    "final = body @ Barrier # map (\<lambda>q. Measure q (num_clbits (qc c) + q)) [0..<nqubits c]"
  have k: "niterations (nstates c1) = Inr K"
    using assms(2) by (simp add: niterations_def K_def c1_def)
  have g: "grover_iterations K c1 = (c\<lparr>qc := body\<rparr>, None)"
    using grover_iterations_appends [of c1 _ K] assms(1) by (simp add: c1_def body_def)
  have nm: "\<not> is_measure oracle" by (rule oracle_not_measure [OF assms(1)])
  have m: "measure_all (nqubits c) body = final"
    using nm by (simp add: measure_all_def body_def final_def)
  have "sampler_run (measure_all (nqubits c) body) counts
      = (if num_clbits (qc c) = 0 then Inr counts else Inl QiskitError)"
    unfolding body_def by (rule sampler_after_measure_all [OF assms(3) nm])
  then have s: "sampler_run final counts
      = (if num_clbits (qc c) = 0 then Inr counts else Inl QiskitError)"
    by (simp only: m)
  have "check_larger_or_equal c counts =
      (case niterations (nstates c1) of
         Inl e \<Rightarrow> (c1, Inl e)
       | Inr k \<Rightarrow>
           (case grover_iterations k c1 of
              (c2, Some e) \<Rightarrow> (c2, Inl e)
            | (c2, None) \<Rightarrow>
                (let c3 = c2\<lparr>qc := measure_all (nqubits c2) (qc c2)\<rparr>
                 in case sampler_run (qc c3) counts of
                      Inl e \<Rightarrow> (c3, Inl e)
                    | Inr cs \<Rightarrow>
                        (let (max_key, max_value) = most_likely cs
                         in (c3, Inr (diff c3 \<ge> 0))))))"
    by (simp only: check_larger_or_equal_def c1_def Let_def)
  also have "\<dots> = (c\<lparr>qc := final\<rparr>,
      if num_clbits (qc c) = 0 then Inr (0 \<le> diff c) else Inl QiskitError)"
    by (simp add: k g m s split_def)
  finally show ?thesis
    by (simp add: final_def body_def K_def)
qed

lemma check_keeps_circuit:
  "\<exists>ys. fst (check_larger_or_equal c counts) = c\<lparr>qc := qc c @ map H [0..<nqubits c] @ ys\<rparr>"
proof (cases "niterations (nstates c)")
  case (Inl e)
  then show ?thesis
    by (intro exI [of _ "[]"]) (simp add: check_larger_or_equal_def)
next
  case (Inr k)
  let ?c1 = "c\<lparr>qc := qc c @ map H [0..<nqubits c]\<rparr>"
  show ?thesis
  proof (cases "create_comparison_oracle c")
    case (Inl e)
    then have "grover_iterations k ?c1 = (?c1, if k = 0 then None else Some e)"
      by (intro grover_iterations_raises) simp
    then show ?thesis
      using Inr
      by (cases "k = 0"; cases "sampler_run (measure_all (nqubits c) (qc ?c1)) counts")
         (auto simp: check_larger_or_equal_def Let_def measure_all_def split_def
            intro: exI [of _ "[]"])
  next
    case (Inr orc)
    then have "grover_iterations k ?c1
        = (c\<lparr>qc := qc c @ map H [0..<nqubits c]
                     @ concat (replicate k [orc, create_diffuser c])\<rparr>, None)"
      using grover_iterations_appends [of ?c1 _ k] by simp
    then show ?thesis
      using \<open>niterations (nstates c) = Inr k\<close>
      by (cases "sampler_run (measure_all (nqubits c)
            (qc c @ map H [0..<nqubits c] @ concat (replicate k [orc, create_diffuser c])))
            counts")
         (auto simp: check_larger_or_equal_def Let_def measure_all_def split_def)
  qed
qed

subsection \<open>The encoding\<close>

text \<open>
  Claim C2: for every pair of integers the encoding computes \<open>diff = a - b\<close>, the width
  \<open>n = max (bit_length \<bar>diff\<bar>) 2\<close> (where the bit length is the least \<open>k\<close> with
  \<open>\<bar>diff\<bar> < 2 ^ k\<close>), so \<open>n \<ge> 2\<close> always, also where one qubit would do (a difference
  of 1), the size \<open>N = 2 ^ n\<close> and the marked index \<open>\<bar>diff\<bar>\<close>.
\<close>

theorem comparator_encoding:
  "diff (new a b) = a - b
   \<and> nqubits (new a b) = max (bit_length \<bar>a - b\<bar>) 2
   \<and> bit_length \<bar>a - b\<bar> = (LEAST k. \<bar>a - b\<bar> < 2 ^ k)
   \<and> 2 \<le> nqubits (new a b)
   \<and> nstates (new a b) = 2 ^ nqubits (new a b)
   \<and> marked_index (new a b) = nat \<bar>a - b\<bar>
   \<and> bit_length \<bar>1 - 0\<bar> = 1 \<and> nqubits (new 1 0) = 2"
  using bit_length_least [of "\<bar>a - b\<bar>"]
  by (simp add: marked_index_def bit_length_code_simps)

lemma oracle_index_error_iff:
  "create_comparison_oracle c = Inl IndexError \<longleftrightarrow> \<not> marked_index c < 2 ^ nqubits c"
  using oracle_in_bounds [of c] oracle_out_of_bounds [of c] by auto

text \<open>
  Claim C6: for every pair of integers \<open>a\<close>, \<open>b\<close> the marked index \<open>\<bar>a - b\<bar>\<close> is below
  \<open>2 ^ n\<close> with \<open>n = max (bit_length \<bar>a - b\<bar>) 2\<close>, so the write at the diagonal position
  of the \<open>2 ^ n \<times> 2 ^ n\<close> matrix is in bounds: the oracle is built, and no
  \<open>IndexError\<close> is raised.
\<close>

theorem marked_index_in_bounds:
  "marked_index (new a b) = nat \<bar>a - b\<bar>
   \<and> nqubits (new a b) = max (bit_length \<bar>a - b\<bar>) 2
   \<and> marked_index (new a b) < 2 ^ nqubits (new a b)
   \<and> marked_index (new a b) < length (eye (2 ^ nqubits (new a b)))
   \<and> create_comparison_oracle (new a b) =
        Inr (Instruction ''Oracle(>=)''
               [Unitary (oracle_matrix (2 ^ nqubits (new a b)) (marked_index (new a b)))])"
  using marked_index_new [of a b] oracle_new [of a b] by (simp add: marked_index_def)

text \<open>
  Claim C9 says that a width above the defensive bound (30) is rejected with
  \<open>ConfigurationError\<close>. The constructor has no such check: for \<open>a = 2 ^ 31\<close>, \<open>b = 0\<close> it
  returns an instance of width 32.
\<close>

theorem constructor_accepts_width_32:
  "init 2147483648 0 =
     Inr \<lparr>number_1 = 2147483648, number_2 = 0, diff = 2147483648, nqubits = 32,
          nstates = 4294967296, qc = []\<rparr>"
proof -
  have "bit_length 2147483648 = 32"
    using bit_length_power2 [of 31] by simp
  then show ?thesis by (simp add: init_def new_def)
qed

text \<open>
  Claim C9, amended: constructing the comparator never fails. For every pair of integers
  the constructor returns an instance, of width \<open>max (bit_length \<bar>a - b\<bar>) 2\<close>; the width is
  at least 2, so a width below 1 does not arise, and it has no upper bound: \<open>a = 2 ^ m\<close>,
  \<open>b = 0\<close> gives the width \<open>m + 1\<close> (2 for \<open>m = 0\<close>).
\<close>

theorem constructor_never_fails:
  "init a b = Inr (new a b)
   \<and> nqubits (new a b) = max (bit_length \<bar>a - b\<bar>) 2
   \<and> 2 \<le> nqubits (new a b)
   \<and> nqubits (new (2 ^ m) 0) = max (m + 1) 2"
  by (simp add: init_def bit_length_power2)

subsection \<open>The run and its result\<close>

lemma width_64: "nqubits (new 9223372036854775808 0) = 64"
  using bit_length_power2 [of 63] by simp

lemma nstates_64: "nstates (new 9223372036854775808 0) = 2 ^ 64"
  using bit_length_power2 [of 63] by simp

lemma check_at_width_64:
  "check_larger_or_equal (new 9223372036854775808 0) counts
     = ((new 9223372036854775808 0)\<lparr>qc := map H [0..<64]\<rparr>, Inl TypeError)"
proof -
  have "\<not> nstates (new 9223372036854775808 0) < 2 ^ 64"
    by (simp only: nstates_64)
  from check_raises_TypeError [OF this, of counts] show ?thesis
    by (simp only: width_64 new_fields(4) append_Nil)
qed

lemma check_new:
  assumes "\<bar>a - b\<bar> < 2 ^ 63"
  shows "check_larger_or_equal (new a b) counts =
     ((new a b)\<lparr>qc := map H [0..<nqubits (new a b)]
          @ concat (replicate (nat \<lfloor>pi / 4 * sqrt (real (nstates (new a b)))\<rfloor>)
              [Instruction ''Oracle(>=)''
                 [Unitary (oracle_matrix (2 ^ nqubits (new a b)) (marked_index (new a b)))],
               create_diffuser (new a b)])
          @ Barrier # map (\<lambda>q. Measure q q) [0..<nqubits (new a b)]\<rparr>,
      Inr (0 \<le> a - b))"
proof -
  have n: "nstates (new a b) < 2 ^ 64" using assms by (simp only: nstates_new_small)
  have q: "0 < nqubits (new a b)" by simp
  from check_result [OF oracle_new n q, of counts] show ?thesis by simp
qed









subsection \<open>The most likely outcome\<close>

lemma most_likely_snoc: "most_likely (xs @ [x]) = max_step x (most_likely xs)"
  by (simp add: most_likely_def)

lemma most_likely_first_max:
  "counts \<noteq> [] \<Longrightarrow>
   \<exists>i<length counts.
      most_likely counts = (Some (fst (counts ! i)), Some (snd (counts ! i)))
      \<and> (\<forall>j<length counts. snd (counts ! j) \<le> snd (counts ! i))
      \<and> (\<forall>j<i. snd (counts ! j) < snd (counts ! i))"
proof (induction counts rule: rev_induct)
  case Nil
  then show ?case by simp
next
  case (snoc x xs)
  show ?case
  proof (cases "xs = []")
    case True
    then show ?thesis
      by (cases x) (simp add: most_likely_def max_step_def)
  next
    case False
    with snoc.IH obtain i where i: "i < length xs"
      and ml: "most_likely xs = (Some (fst (xs ! i)), Some (snd (xs ! i)))"
      and ge: "\<forall>j<length xs. snd (xs ! j) \<le> snd (xs ! i)"
      and gt: "\<forall>j<i. snd (xs ! j) < snd (xs ! i)"
      by blast
    show ?thesis
    proof (cases "snd x > snd (xs ! i)")
      case True
      have "most_likely (xs @ [x]) = (Some (fst x), Some (snd x))"
        using True ml by (cases x) (simp add: most_likely_snoc max_step_def)
      moreover have "\<forall>j<length (xs @ [x]). snd ((xs @ [x]) ! j) \<le> snd x"
        using True ge by (auto simp: nth_append less_Suc_eq)
      moreover have "\<forall>j<length xs. snd ((xs @ [x]) ! j) < snd x"
        using True ge by (auto simp: nth_append)
      ultimately show ?thesis
        by (intro exI [of _ "length xs"]) simp
    next
      case False
      have "most_likely (xs @ [x]) = (Some (fst (xs ! i)), Some (snd (xs ! i)))"
        using False ml by (cases x) (simp add: most_likely_snoc max_step_def)
      moreover have "\<forall>j<length (xs @ [x]). snd ((xs @ [x]) ! j) \<le> snd (xs ! i)"
        using False ge by (auto simp: nth_append less_Suc_eq)
      moreover have "\<forall>j<i. snd ((xs @ [x]) ! j) < snd (xs ! i)"
        using gt i by (auto simp: nth_append)
      ultimately show ?thesis
        using i by (intro exI [of _ i]) (simp add: nth_append)
    qed
  qed
qed

lemma ascending_keys_order:
  fixes counts :: "(nat \<times> real) list"
  assumes "sorted_wrt (<) (map fst counts)" and "i < length counts" and "j < length counts"
    and "fst (counts ! j) < fst (counts ! i)"
  shows "j < i"
proof (rule ccontr)
  assume "\<not> j < i"
  then have "i = j \<or> i < j" by auto
  then have "fst (counts ! i) \<le> fst (counts ! j)"
    using assms(1-3) sorted_wrt_nth_less [of "(<)" "map fst counts" i j] by auto
  with assms(4) show False by simp
qed

text \<open>
  Claim C8 says that for every distribution the selected key has a probability strictly
  greater than that of every lower key. The loop keeps the first maximum it sees: when
  the items come as key 2 and then key 0, both of probability \<open>1/2\<close>, it selects key 2,
  whose probability is not greater than that of the lower key 0.
\<close>

theorem first_seen_wins_tie:
  "most_likely [(2, 1/2), (0, 1/2)] = (Some 2, Some (1/2))
   \<and> (0::nat) < 2 \<and> \<not> (1/2 :: real) < 1/2"
  by (simp add: most_likely_def max_step_def)

text \<open>
  Claim C8, amended: the search for the most likely outcome selects a key of maximal
  probability, the first one seen: its probability is at least that of every key and
  strictly greater than that of every key that comes before it in the order of the items.
  When the items come in increasing key order, the selected key is the lowest one of
  maximal probability: every lower key has a strictly smaller probability.
\<close>

theorem most_likely_first_seen:
  assumes "counts \<noteq> []"
  shows "\<exists>i<length counts.
        most_likely counts = (Some (fst (counts ! i)), Some (snd (counts ! i)))
      \<and> (\<forall>j<length counts. snd (counts ! j) \<le> snd (counts ! i))
      \<and> (\<forall>j<i. snd (counts ! j) < snd (counts ! i))
      \<and> (sorted_wrt (<) (map fst counts) \<longrightarrow>
           (\<forall>j<length counts. fst (counts ! j) < fst (counts ! i)
              \<longrightarrow> snd (counts ! j) < snd (counts ! i)))"
proof -
  from most_likely_first_max [OF assms] obtain i where i: "i < length counts"
    and ml: "most_likely counts = (Some (fst (counts ! i)), Some (snd (counts ! i)))"
    and ge: "\<forall>j<length counts. snd (counts ! j) \<le> snd (counts ! i)"
    and gt: "\<forall>j<i. snd (counts ! j) < snd (counts ! i)"
    by blast
  have "snd (counts ! j) < snd (counts ! i)"
    if "sorted_wrt (<) (map fst counts)" "j < length counts"
      "fst (counts ! j) < fst (counts ! i)" for j
    using gt ascending_keys_order [OF that(1) i that(2) that(3)] by simp
  with i ml ge gt show ?thesis by blast
qed

theorem most_likely_first_seen_witness:
  "[(0::nat, 1/4), (1, 3/8), (2, 3/8), (3, 0::real)] \<noteq> []
   \<and> sorted_wrt (<) (map fst [(0::nat, 1/4), (1, 3/8), (2, 3/8), (3, 0::real)])
   \<and> most_likely [(0::nat, 1/4), (1, 3/8), (2, 3/8), (3, 0::real)] = (Some 1, Some (3/8))
   \<and> (\<exists>i<length [(0::nat, 1/4), (1, 3/8), (2, 3/8), (3, 0::real)].
        most_likely [(0::nat, 1/4), (1, 3/8), (2, 3/8), (3, 0::real)] = (Some (fst ([(0::nat, 1/4), (1, 3/8), (2, 3/8), (3, 0::real)] ! i)), Some (snd ([(0::nat, 1/4), (1, 3/8), (2, 3/8), (3, 0::real)] ! i)))
      \<and> (\<forall>j<length [(0::nat, 1/4), (1, 3/8), (2, 3/8), (3, 0::real)]. snd ([(0::nat, 1/4), (1, 3/8), (2, 3/8), (3, 0::real)] ! j) \<le> snd ([(0::nat, 1/4), (1, 3/8), (2, 3/8), (3, 0::real)] ! i))
      \<and> (\<forall>j<i. snd ([(0::nat, 1/4), (1, 3/8), (2, 3/8), (3, 0::real)] ! j) < snd ([(0::nat, 1/4), (1, 3/8), (2, 3/8), (3, 0::real)] ! i))
      \<and> (sorted_wrt (<) (map fst [(0::nat, 1/4), (1, 3/8), (2, 3/8), (3, 0::real)]) \<longrightarrow>
           (\<forall>j<length [(0::nat, 1/4), (1, 3/8), (2, 3/8), (3, 0::real)]. fst ([(0::nat, 1/4), (1, 3/8), (2, 3/8), (3, 0::real)] ! j) < fst ([(0::nat, 1/4), (1, 3/8), (2, 3/8), (3, 0::real)] ! i)
              \<longrightarrow> snd ([(0::nat, 1/4), (1, 3/8), (2, 3/8), (3, 0::real)] ! j) < snd ([(0::nat, 1/4), (1, 3/8), (2, 3/8), (3, 0::real)] ! i))))"
proof -
  have a: "[(0::nat, 1/4), (1, 3/8), (2, 3/8), (3, 0::real)] \<noteq> []" by simp
  have b: "sorted_wrt (<) (map fst [(0::nat, 1/4), (1, 3/8), (2, 3/8), (3, 0::real)])" by simp
  have c: "most_likely [(0::nat, 1/4), (1, 3/8), (2, 3/8), (3, 0::real)] = (Some 1, Some (3/8))"
    by (simp add: most_likely_def max_step_def)
  note d = most_likely_first_seen [OF a]
  show ?thesis by (rule conjI [OF a conjI [OF b conjI [OF c d]]])
qed

subsection \<open>The oracle as a phase flip\<close>

lemma eye_nth: "r < N \<Longrightarrow> eye N ! r = diag_row N r 1"
  by (simp add: eye_def diag_row_def)

lemma diag_row_update: "r < N \<Longrightarrow> (diag_row N r a)[r := b] = diag_row N r b"
  by (rule nth_equalityI) (auto simp: diag_row_def nth_list_update)

lemma length_oracle_matrix [simp]: "length (oracle_matrix N i) = N"
  by (simp add: oracle_matrix_def)

lemma oracle_matrix_nth:
  "i < N \<Longrightarrow> r < N \<Longrightarrow> oracle_matrix N i ! r = diag_row N r (if r = i then - 1 else 1)"
  by (simp add: oracle_matrix_def nth_list_update eye_nth diag_row_update)

lemma oracle_matrix_rows:
  "i < N \<Longrightarrow> list_all (\<lambda>row. length row = N) (oracle_matrix N i)"
  by (auto simp: list_all_length oracle_matrix_nth diag_row_def)

lemma oracle_matrix_entry:
  "i < N \<Longrightarrow> r < N \<Longrightarrow> c < N \<Longrightarrow>
   oracle_matrix N i ! r ! c = (if r = c then if r = i then - 1 else 1 else 0)"
  by (simp add: oracle_matrix_nth diag_row_def)

lemma dot_diag_row:
  assumes "length v = N" "r < N"
  shows "dot (diag_row N r a) v = complex_of_int a * v ! r"
proof -
  have "dot (diag_row N r a) v = (\<Sum>j = 0..<N. complex_of_int (if r = j then a else 0) * v ! j)"
    using assms by (simp add: dot_def diag_row_def sum_list_sum_nth)
  also have "\<dots> = (\<Sum>j = 0..<N. if j = r then complex_of_int a * v ! j else 0)"
    by (rule sum.cong) auto
  also have "\<dots> = complex_of_int a * v ! r"
    using assms by simp
  finally show ?thesis .
qed

lemma int_dot_diag_rows:
  "r < N \<Longrightarrow> r' < N \<Longrightarrow>
   sum_list (map2 (*) (diag_row N r a) (diag_row N r' b)) = (if r = r' then a * b else 0)"
proof -
  assume r: "r < N" "r' < N"
  have "sum_list (map2 (*) (diag_row N r a) (diag_row N r' b))
      = (\<Sum>j = 0..<N. (if r = j then a else 0) * (if r' = j then b else 0))"
    by (simp add: diag_row_def sum_list_sum_nth)
  also have "\<dots> = (\<Sum>j = 0..<N. if j = r then (if r = r' then a * b else 0) else 0)"
    by (rule sum.cong) auto
  also have "\<dots> = (if r = r' then a * b else 0)"
    using r by simp
  finally show ?thesis .
qed

lemma oracle_matrix_unitary:
  assumes "i < N"
  shows "unitary (oracle_matrix N i)"
proof -
  have "gram (oracle_matrix N i) ! r = eye N ! r" if r: "r < N" for r
  proof (rule nth_equalityI)
    show "length (gram (oracle_matrix N i) ! r) = length (eye N ! r)"
      using r by (simp add: gram_def eye_nth diag_row_def)
  next
    fix k assume "k < length (gram (oracle_matrix N i) ! r)"
    then have k: "k < N" using r by (simp add: gram_def)
    have "gram (oracle_matrix N i) ! r ! k
        = (if r = k then (if r = i then - 1 else 1) * (if k = i then - 1 else 1) else 0)"
      using assms r k by (simp add: gram_def oracle_matrix_nth int_dot_diag_rows)
    also have "\<dots> = eye N ! r ! k"
      using r k by (simp add: eye_nth diag_row_def)
    finally show "gram (oracle_matrix N i) ! r ! k = eye N ! r ! k" .
  qed
  then have "gram (oracle_matrix N i) = eye N"
    by (intro nth_equalityI) (simp_all add: gram_def)
  then show ?thesis by (simp add: unitary_def)
qed

lemma oracle_matrix_apply:
  assumes "i < N" "length v = N"
  shows "apply_gate (Unitary (oracle_matrix N i)) v = Inr (v[i := - v ! i])"
proof -
  have "map (\<lambda>row. dot row v) (oracle_matrix N i) = v[i := - v ! i]"
    using assms
    by (intro nth_equalityI) (auto simp: oracle_matrix_nth dot_diag_row nth_list_update)
  then show ?thesis
    using assms oracle_matrix_rows [of i N] by simp
qed

text \<open>
  Claim C3: for every width \<open>n\<close> and every marked index below \<open>2 ^ n\<close> the oracle wraps a
  diagonal unitary matrix, the identity but for the entry \<open>-1\<close> at the marked index;
  applied to a state vector it negates the amplitude at that index and leaves every other
  amplitude as it is.
\<close>

theorem oracle_is_phase_flip:
  assumes "marked_index c < 2 ^ nqubits c" and "length v = 2 ^ nqubits c"
  shows "\<exists>M. create_comparison_oracle c = Inr (Instruction ''Oracle(>=)'' [Unitary M])
     \<and> length M = 2 ^ nqubits c
     \<and> list_all (\<lambda>row. length row = 2 ^ nqubits c) M
     \<and> (\<forall>r<2 ^ nqubits c. \<forall>k<2 ^ nqubits c.
           M ! r ! k = (if r = k then if r = marked_index c then - 1 else 1 else 0))
     \<and> unitary M
     \<and> apply_gate (Instruction ''Oracle(>=)'' [Unitary M]) v
         = Inr (v[marked_index c := - v ! marked_index c])"
  using assms
  by (intro exI [of _ "oracle_matrix (2 ^ nqubits c) (marked_index c)"])
     (simp add: oracle_in_bounds oracle_matrix_rows oracle_matrix_entry oracle_matrix_unitary
        oracle_matrix_apply del: apply_gate.simps(5))

theorem oracle_is_phase_flip_witness:
  "marked_index (new 5 3) < 2 ^ nqubits (new 5 3)
   \<and> length [1/2, 1/2, 1/2, 1/2 :: complex] = 2 ^ nqubits (new 5 3)
   \<and> (\<exists>M. create_comparison_oracle (new 5 3) = Inr (Instruction ''Oracle(>=)'' [Unitary M])
     \<and> apply_gate (Instruction ''Oracle(>=)'' [Unitary M]) [1/2, 1/2, 1/2, 1/2]
         = Inr [1/2, 1/2, - 1/2, 1/2])"
proof -
  have a: "marked_index (new 5 3) < 2 ^ nqubits (new 5 3)"
    by (simp add: marked_index_def bit_length_code_simps)
  have b: "length [1/2, 1/2, 1/2, 1/2 :: complex] = 2 ^ nqubits (new 5 3)"
    by (simp add: bit_length_code_simps)
  have m: "marked_index (new 5 3) = 2" by (simp add: marked_index_def)
  from oracle_is_phase_flip [OF a b] obtain M where
    "create_comparison_oracle (new 5 3) = Inr (Instruction ''Oracle(>=)'' [Unitary M])"
    "apply_gate (Instruction ''Oracle(>=)'' [Unitary M]) [1/2, 1/2, 1/2, 1/2]
       = Inr ([1/2, 1/2, 1/2, 1/2][marked_index (new 5 3) := - [1/2, 1/2, 1/2, 1/2 :: complex] ! marked_index (new 5 3)])"
    by blast
  then show ?thesis using a b by (intro conjI exI [of _ M]) (simp_all add: m)
qed

subsection \<open>Amplitudes and bits\<close>

lemma flip_bit_less:
  fixes k :: nat
  assumes "k < 2 ^ n" "q < n"
  shows "flip_bit q k < 2 ^ n"
proof -
  have "take_bit n (flip_bit q k) = flip_bit q (take_bit n k)"
    using assms by (simp add: take_bit_flip_bit_eq)
  also have "\<dots> = flip_bit q k" using assms by (simp add: take_bit_nat_eq_self)
  finally show ?thesis by (simp add: take_bit_nat_eq_self_iff)
qed

lemma flip_bit_twice [simp]: "flip_bit q (flip_bit q k) = (k::nat)"
  by (rule bit_eqI) (auto simp: bit_simps)

lemma bit_flip_bit_same [simp]: "bit (flip_bit q k) q \<longleftrightarrow> \<not> bit (k::nat) q"
  by (auto simp: bit_simps)

lemma bit_flip_bit_other [simp]: "q \<noteq> r \<Longrightarrow> bit (flip_bit q k) r \<longleftrightarrow> bit (k::nat) r"
  by (auto simp: bit_simps)

lemma flip_bit_commute: "flip_bit q (flip_bit r k) = flip_bit r (flip_bit q (k::nat))"
  by (rule bit_eqI) (auto simp: bit_simps)

lemma sum_flip_bit:
  fixes g :: "nat \<Rightarrow> real"
  assumes "q < n"
  shows "(\<Sum>k<2 ^ n. g (flip_bit q k)) = (\<Sum>k<2 ^ n. g k)"
  by (rule sum.reindex_bij_witness [of _ "flip_bit q" "flip_bit q"])
     (simp_all add: flip_bit_less assms)

lemma length_vec [simp]: "length (vec N f) = N"
  by (simp add: vec_def)

lemma nth_vec [simp]: "k < N \<Longrightarrow> vec N f ! k = f k"
  by (simp add: vec_def)

lemma vec_nth: "length v = N \<Longrightarrow> vec N (nth v) = v"
  using map_nth [of v] by (simp add: vec_def)

lemma vec_cong: "(\<And>k. k < N \<Longrightarrow> f k = g k) \<Longrightarrow> vec N f = vec N g"
  by (simp add: vec_def)

lemma total_probability_vec: "total_probability (vec N f) = norm2 N f"
  by (simp add: total_probability_def probabilities_def vec_def norm2_def comp_def
      interv_sum_list_conv_sum_set_nat atLeast0LessThan)

lemma apply_H_vec:
  assumes "q < n"
  shows "apply_gate (H q) (vec (2 ^ n) f) = Inr (vec (2 ^ n) (h_amp q f))"
proof -
  have "h_amp q (nth (vec (2 ^ n) f)) k = h_amp q f k" if "k < 2 ^ n" for k
    using that assms by (simp add: h_amp_def flip_bit_less)
  then have "map (h_amp q (nth (vec (2 ^ n) f))) [0..<2 ^ n] = vec (2 ^ n) (h_amp q f)"
    by (simp add: vec_def)
  then show ?thesis using assms by simp
qed

lemma apply_X_vec:
  assumes "q < n"
  shows "apply_gate (X q) (vec (2 ^ n) f) = Inr (vec (2 ^ n) (x_amp q f))"
proof -
  have "x_amp q (nth (vec (2 ^ n) f)) k = x_amp q f k" if "k < 2 ^ n" for k
    using that assms by (simp add: x_amp_def flip_bit_less)
  then have "map (x_amp q (nth (vec (2 ^ n) f))) [0..<2 ^ n] = vec (2 ^ n) (x_amp q f)"
    by (simp add: vec_def)
  then show ?thesis using assms by simp
qed

lemma apply_MCX_vec:
  assumes "t < n" "\<forall>q\<in>set cs. q < n" "distinct (t # cs)"
  shows "apply_gate (MCX cs t) (vec (2 ^ n) f) = Inr (vec (2 ^ n) (mcx_amp cs t f))"
proof -
  have "mcx_amp cs t (nth (vec (2 ^ n) f)) k = mcx_amp cs t f k" if "k < 2 ^ n" for k
    using that assms by (simp add: mcx_amp_def flip_bit_less)
  then have "map (mcx_amp cs t (nth (vec (2 ^ n) f))) [0..<2 ^ n] = vec (2 ^ n) (mcx_amp cs t f)"
    by (simp add: vec_def)
  moreover have "list_all (\<lambda>q. (2::nat) ^ q < 2 ^ n) (t # cs)"
    using assms by (simp add: list_all_iff)
  ultimately show ?thesis using assms by simp
qed

lemma cmod_div_sqrt2: "(cmod (z / complex_of_real (sqrt 2)))\<^sup>2 = (cmod z)\<^sup>2 / 2"
  by (simp add: norm_divide power_divide)

lemma parallelogram:
  "(cmod (a + b))\<^sup>2 + (cmod (a - b))\<^sup>2 = 2 * (cmod a)\<^sup>2 + 2 * (cmod b)\<^sup>2"
  by (simp add: cmod_power2) (simp add: power2_eq_square algebra_simps)

lemma h_amp_pair:
  "(cmod (h_amp q f k))\<^sup>2 + (cmod (h_amp q f (flip_bit q k)))\<^sup>2
     = (cmod (f k))\<^sup>2 + (cmod (f (flip_bit q k)))\<^sup>2"
proof (cases "bit k q")
  case True
  then show ?thesis
    using parallelogram [of "f (flip_bit q k)" "f k"]
    by (simp add: h_amp_def cmod_div_sqrt2 add.commute)
next
  case False
  then show ?thesis
    using parallelogram [of "f k" "f (flip_bit q k)"]
    by (simp add: h_amp_def cmod_div_sqrt2 add.commute)
qed

lemma norm2_h_amp:
  assumes "q < n"
  shows "norm2 (2 ^ n) (h_amp q f) = norm2 (2 ^ n) f"
proof -
  let ?p = "\<lambda>g k. (cmod (g k))\<^sup>2"
  have "2 * norm2 (2 ^ n) (h_amp q f)
      = (\<Sum>k<2 ^ n. ?p (h_amp q f) k) + (\<Sum>k<2 ^ n. ?p (h_amp q f) (flip_bit q k))"
    using sum_flip_bit [OF assms, of "?p (h_amp q f)"] by (simp add: norm2_def)
  also have "\<dots> = (\<Sum>k<2 ^ n. ?p (h_amp q f) k + ?p (h_amp q f) (flip_bit q k))"
    by (simp add: sum.distrib)
  also have "\<dots> = (\<Sum>k<2 ^ n. ?p f k + ?p f (flip_bit q k))"
    by (simp add: h_amp_pair)
  also have "\<dots> = (\<Sum>k<2 ^ n. ?p f k) + (\<Sum>k<2 ^ n. ?p f (flip_bit q k))"
    by (simp add: sum.distrib)
  also have "\<dots> = 2 * norm2 (2 ^ n) f"
    using sum_flip_bit [OF assms, of "?p f"] by (simp add: norm2_def)
  finally show ?thesis by simp
qed

lemma norm2_x_amp:
  assumes "q < n"
  shows "norm2 (2 ^ n) (x_amp q f) = norm2 (2 ^ n) f"
  using sum_flip_bit [OF assms, of "\<lambda>k. (cmod (f k))\<^sup>2"]
  by (simp add: norm2_def x_amp_def)

lemma list_all_bit_flip:
  "t \<notin> set cs \<Longrightarrow> list_all (bit (flip_bit t k)) cs = list_all (bit (k::nat)) cs"
  by (induction cs) auto

lemma mcx_perm_twice: "t \<notin> set cs \<Longrightarrow> mcx_perm cs t (mcx_perm cs t k) = k"
  by (simp add: mcx_perm_def list_all_bit_flip)

lemma mcx_perm_less: "t < n \<Longrightarrow> k < 2 ^ n \<Longrightarrow> mcx_perm cs t k < 2 ^ n"
  by (simp add: mcx_perm_def flip_bit_less)

lemma norm2_mcx_amp:
  assumes "t < n" "t \<notin> set cs"
  shows "norm2 (2 ^ n) (mcx_amp cs t f) = norm2 (2 ^ n) f"
proof -
  have "(\<Sum>k<2 ^ n. (cmod (f (mcx_perm cs t k)))\<^sup>2) = (\<Sum>k<2 ^ n. (cmod (f k))\<^sup>2)"
    by (rule sum.reindex_bij_witness [of _ "mcx_perm cs t" "mcx_perm cs t"])
       (simp_all add: mcx_perm_twice mcx_perm_less assms)
  moreover have "mcx_amp cs t f k = f (mcx_perm cs t k)" for k
    by (simp add: mcx_amp_def mcx_perm_def)
  ultimately show ?thesis by (simp add: norm2_def)
qed

lemma csqrt2_square [simp]: "complex_of_real (sqrt 2) * complex_of_real (sqrt 2) = 2"
  by (metis of_real_mult of_real_numeral real_sqrt_mult_self abs_numeral)

lemma csqrt2_nonzero [simp]: "complex_of_real (sqrt 2) \<noteq> 0"
  by simp

lemma half_half: "(z / complex_of_real (sqrt 2)) / complex_of_real (sqrt 2) = z / 2"
  by (simp add: divide_divide_eq_left)

lemma h_amp_twice: "h_amp q (h_amp q f) = f"
proof
  fix k
  show "h_amp q (h_amp q f) k = f k"
    by (cases "bit k q") (simp_all add: h_amp_def diff_divide_distrib [symmetric]
        add_divide_distrib [symmetric] half_half)
qed

lemma h_amp_commute: "h_amp q (h_amp r f) = h_amp r (h_amp q f)"
proof (cases "q = r")
  case True then show ?thesis by simp
next
  case False
  show ?thesis
  proof
    fix k
    show "h_amp q (h_amp r f) k = h_amp r (h_amp q f) k"
      using False
      by (cases "bit k q"; cases "bit k r")
         (simp_all add: h_amp_def flip_bit_commute [of q r] diff_divide_distrib [symmetric]
            add_divide_distrib [symmetric])
  qed
qed

lemma h_all_commute: "h_amp q (h_all m f) = h_all m (h_amp q f)"
  by (induction m) (simp_all add: h_amp_commute [of q])

lemma h_all_twice: "h_all m (h_all m f) = f"
  by (induction m arbitrary: f) (simp_all add: h_all_commute [symmetric] h_amp_twice)

lemma h_amp_linear:
  "h_amp q (\<lambda>k. f k + c * g k) = (\<lambda>k. h_amp q f k + c * h_amp q g k)"
  by (rule ext) (simp add: h_amp_def field_simps)

lemma h_all_linear:
  "h_all m (\<lambda>k. f k + c * g k) = (\<lambda>k. h_all m f k + c * h_all m g k)"
  by (induction m) (simp_all add: h_amp_linear)

lemma less_power2_iff_bits: "(k::nat) < 2 ^ n \<longleftrightarrow> (\<forall>j. bit k j \<longrightarrow> j < n)"
proof -
  have "k < 2 ^ n \<longleftrightarrow> take_bit n k = k"
    by (simp add: take_bit_nat_eq_self_iff)
  also have "\<dots> \<longleftrightarrow> (\<forall>j. bit k j \<longrightarrow> j < n)"
    by (auto simp: bit_eq_iff bit_take_bit_iff)
  finally show ?thesis .
qed

lemma not_bit_of_less: "(k::nat) < 2 ^ m \<Longrightarrow> \<not> bit k m"
  by (auto simp: less_power2_iff_bits)

lemma flip_bit_of_less: "(k::nat) < 2 ^ m \<Longrightarrow> flip_bit m k = k + 2 ^ m"
  by (simp add: flip_bit_eq_if not_bit_of_less set_bit_eq not_bit_of_less)

lemma flip_bit_less_iff:
  "bit (k::nat) m \<Longrightarrow> flip_bit m k < 2 ^ m \<longleftrightarrow> k < 2 ^ Suc m"
  unfolding less_power2_iff_bits
  by (auto simp: bit_flip_bit_iff less_Suc_eq)

lemma less_Suc_power_iff:
  "\<not> bit (k::nat) m \<Longrightarrow> k < 2 ^ Suc m \<longleftrightarrow> k < 2 ^ m"
  unfolding less_power2_iff_bits
  by (auto simp: less_Suc_eq)

lemma flip_bit_not_less: "\<not> bit (k::nat) m \<Longrightarrow> \<not> flip_bit m k < 2 ^ m"
  unfolding less_power2_iff_bits
  by (auto simp: bit_flip_bit_iff)

lemma bit_not_less: "bit (k::nat) m \<Longrightarrow> \<not> k < 2 ^ m"
  by (auto simp: less_power2_iff_bits)

lemma h_all_delta0:
  "h_all m delta0 k = (if k < 2 ^ m then 1 / complex_of_real (sqrt 2) ^ m else 0)"
proof (induction m arbitrary: k)
  case 0
  show ?case by (simp add: delta0_def)
next
  case (Suc m)
  show ?case
  proof (cases "bit k m")
    case True
    then show ?thesis
      by (simp add: h_amp_def Suc flip_bit_less_iff bit_not_less del: power_Suc)
         (simp add: divide_divide_eq_left)
  next
    case False
    then show ?thesis
      by (simp add: h_amp_def Suc less_Suc_power_iff flip_bit_not_less del: power_Suc)
         (simp add: divide_divide_eq_left)
  qed
qed

lemma sum_upper_half:
  fixes f :: "nat \<Rightarrow> complex"
  shows "(\<Sum>j<2 ^ Suc m. f j) = (\<Sum>j<2 ^ m. f j) + (\<Sum>j<2 ^ m. f (j + 2 ^ m))"
proof -
  have "(\<Sum>j<2 ^ Suc m. f j) = (\<Sum>j = 0..<2 ^ m + 2 ^ m. f j)"
    by (simp add: atLeast0LessThan mult_2)
  also have "\<dots> = (\<Sum>j = 0..<2 ^ m. f j) + (\<Sum>j = 2 ^ m..<2 ^ m + 2 ^ m. f j)"
    by (rule sum.atLeastLessThan_concat [symmetric]) simp_all
  also have "(\<Sum>j = 2 ^ m..<2 ^ m + 2 ^ m. f j) = (\<Sum>j = 0..<2 ^ m. f (j + 2 ^ m))"
    using sum.shift_bounds_nat_ivl [of f 0 "2 ^ m" "2 ^ m"] by simp
  finally show ?thesis by (simp add: atLeast0LessThan)
qed

lemma h_all_at_0:
  "h_all m f 0 = (\<Sum>j<2 ^ m. f j) / complex_of_real (sqrt 2) ^ m"
proof (induction m arbitrary: f)
  case 0
  show ?case by simp
next
  case (Suc m)
  have "h_all (Suc m) f 0 = h_all m (h_amp m f) 0"
    by (simp add: h_all_commute)
  also have "\<dots> = (\<Sum>j<2 ^ m. h_amp m f j) / complex_of_real (sqrt 2) ^ m"
    by (rule Suc)
  also have "(\<Sum>j<2 ^ m. h_amp m f j)
      = (\<Sum>j<2 ^ m. (f j + f (j + 2 ^ m)) / complex_of_real (sqrt 2))"
    by (rule sum.cong) (simp_all add: h_amp_def not_bit_of_less flip_bit_of_less)
  also have "\<dots> = (\<Sum>j<2 ^ Suc m. f j) / complex_of_real (sqrt 2)"
    by (simp add: sum_upper_half sum.distrib sum_divide_distrib [symmetric] del: power_Suc)
  finally show ?case by (simp add: divide_divide_eq_left mult.commute)
qed

lemma x_all_xor_mask: "x_all m f k = f (k XOR mask m)"
proof (induction m arbitrary: k)
  case 0
  show ?case by simp
next
  case (Suc m)
  have "flip_bit m k XOR mask m = k XOR mask (Suc m)"
    by (rule bit_eqI) (auto simp: bit_xor_iff bit_mask_iff bit_flip_bit_iff less_Suc_eq)
  then show ?case by (simp add: x_amp_def Suc)
qed

lemma phase_kickback:
  assumes "t \<notin> set cs"
  shows "h_amp t (mcx_amp cs t (h_amp t f)) k
       = (if list_all (bit k) cs \<and> bit k t then - f k else f k)"
proof (cases "list_all (bit k) cs")
  case True
  then have "list_all (bit (flip_bit t k)) cs"
    using assms by (simp add: list_all_bit_flip)
  with True show ?thesis
    by (cases "bit k t")
       (simp_all add: h_amp_def mcx_amp_def diff_divide_distrib [symmetric]
          add_divide_distrib [symmetric] half_half)
next
  case False
  then have "\<not> list_all (bit (flip_bit t k)) cs"
    using assms by (simp add: list_all_bit_flip)
  with False show ?thesis
    by (cases "bit k t")
       (simp_all add: h_amp_def mcx_amp_def diff_divide_distrib [symmetric]
          add_divide_distrib [symmetric] half_half)
qed

lemma all_ones_iff:
  assumes "0 < n"
  shows "list_all (bit k) [0..<n - 1] \<and> bit k (n - 1) \<longleftrightarrow> (\<forall>j<n. bit (k::nat) j)"
proof -
  from assms obtain m where n: "n = Suc m" by (cases n) auto
  have "list_all (bit k) [0..<m] \<longleftrightarrow> (\<forall>j<m. bit k j)"
    by (auto simp: list_all_iff)
  then show ?thesis
    unfolding n by (simp add: All_less_Suc conj_commute)
qed

lemma bit_xor_mask: "bit ((k::nat) XOR mask n) j \<longleftrightarrow> (bit k j \<noteq> (j < n))"
  by (simp add: bit_xor_iff bit_mask_iff)

lemma complement_all_ones_iff:
  fixes k :: nat
  assumes "k < 2 ^ n"
  shows "(\<forall>j<n. bit (k XOR mask n) j) \<longleftrightarrow> k = 0"
proof -
  have "(\<forall>j<n. bit (k XOR mask n) j) \<longleftrightarrow> (\<forall>j<n. \<not> bit k j)"
    by (simp add: bit_xor_mask)
  also have "\<dots> \<longleftrightarrow> (\<forall>j. \<not> bit k j)"
    using assms unfolding less_power2_iff_bits by blast
  also have "\<dots> \<longleftrightarrow> k = 0"
    by (simp add: bit_eq_iff)
  finally show ?thesis .
qed

lemma xor_mask_less: "(k::nat) < 2 ^ n \<Longrightarrow> k XOR mask n < 2 ^ n"
  unfolding less_power2_iff_bits bit_xor_mask by blast

lemma xor_mask_twice [simp]: "((k::nat) XOR mask n) XOR mask n = k"
  by (rule bit_eqI) (auto simp: bit_xor_iff bit_mask_iff)

subsection \<open>The diffuser as a transform of the state vector\<close>

lemma apply_gates_append:
  "apply_gates (gs @ hs) v =
     (case apply_gates gs v of Inl e \<Rightarrow> Inl e | Inr w \<Rightarrow> apply_gates hs w)"
  by (induction gs arbitrary: v) (simp_all split: sum.splits)

lemma apply_gates_append_Inr:
  "apply_gates gs v = Inr w \<Longrightarrow> apply_gates (gs @ hs) v = apply_gates hs w"
  by (simp add: apply_gates_append)

lemma apply_H_layer:
  "m \<le> n \<Longrightarrow> apply_gates (map H [0..<m]) (vec (2 ^ n) f) = Inr (vec (2 ^ n) (h_all m f))"
proof (induction m)
  case 0
  show ?case by simp
next
  case (Suc m)
  then have "apply_gates (map H [0..<m]) (vec (2 ^ n) f) = Inr (vec (2 ^ n) (h_all m f))"
    by simp
  from apply_gates_append_Inr [OF this, of "[H m]"] Suc.prems show ?case
    by (simp add: apply_H_vec del: apply_gate.simps)
qed

lemma apply_X_layer:
  "m \<le> n \<Longrightarrow> apply_gates (map X [0..<m]) (vec (2 ^ n) f) = Inr (vec (2 ^ n) (x_all m f))"
proof (induction m)
  case 0
  show ?case by simp
next
  case (Suc m)
  then have "apply_gates (map X [0..<m]) (vec (2 ^ n) f) = Inr (vec (2 ^ n) (x_all m f))"
    by simp
  from apply_gates_append_Inr [OF this, of "[X m]"] Suc.prems show ?case
    by (simp add: apply_X_vec del: apply_gate.simps)
qed

lemma apply_kickback:
  assumes "0 < n"
  shows "apply_gates [Barrier, H (n - 1), MCX [0..<n - 1] (n - 1), H (n - 1), Barrier]
           (vec (2 ^ n) f)
       = Inr (vec (2 ^ n) (\<lambda>k. if \<forall>j<n. bit k j then - f k else f k))"
proof -
  from assms obtain t where n: "n = Suc t" by (cases n) auto
  let ?cs = "[0..<t]"
  have t: "t < n" using n by simp
  have cs: "\<forall>q\<in>set ?cs. q < n" using n by auto
  have d: "distinct (t # ?cs)" by simp
  have 1: "apply_gate (H t) (vec (2 ^ n) f) = Inr (vec (2 ^ n) (h_amp t f))"
    by (rule apply_H_vec [OF t])
  have 2: "apply_gate (MCX ?cs t) (vec (2 ^ n) (h_amp t f))
         = Inr (vec (2 ^ n) (mcx_amp ?cs t (h_amp t f)))"
    by (rule apply_MCX_vec [OF t cs d])
  have 3: "apply_gate (H t) (vec (2 ^ n) (mcx_amp ?cs t (h_amp t f)))
         = Inr (vec (2 ^ n) (h_amp t (mcx_amp ?cs t (h_amp t f))))"
    by (rule apply_H_vec [OF t])
  have "apply_gates [Barrier, H t, MCX ?cs t, H t, Barrier] (vec (2 ^ n) f)
      = Inr (vec (2 ^ n) (h_amp t (mcx_amp ?cs t (h_amp t f))))"
    by (simp add: 1 2 3 del: apply_gate.simps(1-3))
  also have "vec (2 ^ n) (h_amp t (mcx_amp ?cs t (h_amp t f)))
      = vec (2 ^ n) (\<lambda>k. if \<forall>j<n. bit k j then - f k else f k)"
  proof (rule vec_cong)
    fix k :: nat
    have "list_all (bit k) [0..<n - 1] \<and> bit k (n - 1) \<longleftrightarrow> (\<forall>j<n. bit k j)"
      by (rule all_ones_iff [OF assms])
    then show "h_amp t (mcx_amp ?cs t (h_amp t f)) k = (if \<forall>j<n. bit k j then - f k else f k)"
      by (simp add: phase_kickback n)
  qed
  finally show ?thesis by (simp add: n)
qed

lemma sqrt2_power_square:
  "complex_of_real (sqrt 2) ^ n * complex_of_real (sqrt 2) ^ n = 2 ^ n"
  by (simp add: power_mult_distrib [symmetric])

lemma diffuser_vec:
  assumes "0 < nqubits c" and "N = 2 ^ nqubits c"
  shows "apply_gate (create_diffuser c) (vec N f)
       = Inr (vec N (\<lambda>k. f k - 2 * ((\<Sum>j<N. f j) / of_nat N)))"
proof -
  let ?n = "nqubits c"
  let ?g1 = "h_all ?n f"
  let ?g3 = "\<lambda>k. if \<forall>j<?n. bit k j then - x_all ?n ?g1 k else x_all ?n ?g1 k"
  let ?g4 = "\<lambda>k. ?g1 k + (- 2 * ?g1 0) * delta0 k"
  have s1: "apply_gates (map H [0..<?n]) (vec N f) = Inr (vec N ?g1)"
    unfolding assms(2) by (rule apply_H_layer) simp
  have s2: "apply_gates (map X [0..<?n]) (vec N ?g1) = Inr (vec N (x_all ?n ?g1))"
    unfolding assms(2) by (rule apply_X_layer) simp
  have s3: "apply_gates [Barrier, H (?n - 1), MCX [0..<?n - 1] (?n - 1), H (?n - 1), Barrier]
              (vec N (x_all ?n ?g1)) = Inr (vec N ?g3)"
    unfolding assms(2) by (rule apply_kickback [OF assms(1)])
  have "apply_gates (map X [0..<?n]) (vec N ?g3) = Inr (vec N (x_all ?n ?g3))"
    unfolding assms(2) by (rule apply_X_layer) simp
  moreover have "vec N (x_all ?n ?g3) = vec N ?g4"
  proof (rule vec_cong)
    fix k assume "k < N"
    then have k: "k < 2 ^ ?n" by (simp add: assms(2))
    show "x_all ?n ?g3 k = ?g4 k"
      using complement_all_ones_iff [OF k]
      by (simp add: x_all_xor_mask delta0_def)
  qed
  ultimately have s4: "apply_gates (map X [0..<?n]) (vec N ?g3) = Inr (vec N ?g4)"
    by simp
  have "apply_gates (map H [0..<?n]) (vec N ?g4) = Inr (vec N (h_all ?n ?g4))"
    unfolding assms(2) by (rule apply_H_layer) simp
  moreover have "vec N (h_all ?n ?g4) = vec N (\<lambda>k. f k - 2 * ((\<Sum>j<N. f j) / of_nat N))"
  proof (rule vec_cong)
    fix k assume "k < N"
    then have k: "k < 2 ^ ?n" by (simp add: assms(2))
    have "h_all ?n ?g4 k = f k + (- 2 * ?g1 0) * h_all ?n delta0 k"
      by (simp only: h_all_linear h_all_twice)
    also have "\<dots> = f k - 2 * ((\<Sum>j<N. f j) / (complex_of_real (sqrt 2) ^ ?n * complex_of_real (sqrt 2) ^ ?n))"
      using k by (simp add: h_all_delta0 h_all_at_0 assms(2))
    also have "\<dots> = f k - 2 * ((\<Sum>j<N. f j) / of_nat N)"
      by (simp only: sqrt2_power_square) (simp add: assms(2))
    finally show "h_all ?n ?g4 k = f k - 2 * ((\<Sum>j<N. f j) / of_nat N)" .
  qed
  ultimately have s5: "apply_gates (map H [0..<?n]) (vec N ?g4)
      = Inr (vec N (\<lambda>k. f k - 2 * ((\<Sum>j<N. f j) / of_nat N)))"
    by simp
  have "apply_gate (create_diffuser c) (vec N f)
      = apply_gates (map H [0..<?n] @ map X [0..<?n]
          @ [Barrier, H (?n - 1), MCX [0..<?n - 1] (?n - 1), H (?n - 1), Barrier]
          @ map X [0..<?n] @ map H [0..<?n]) (vec N f)"
    by (simp add: create_diffuser_def Let_def)
  also have "\<dots> = Inr (vec N (\<lambda>k. f k - 2 * ((\<Sum>j<N. f j) / of_nat N)))"
    by (simp only: apply_gates_append_Inr [OF s1] apply_gates_append_Inr [OF s2]
        apply_gates_append_Inr [OF s3] apply_gates_append_Inr [OF s4] s5)
  finally show ?thesis .
qed

lemma diffuser_apply:
  assumes "0 < nqubits c" and "length v = 2 ^ nqubits c"
  shows "apply_gate (create_diffuser c) v = Inr (map (\<lambda>a. a - 2 * mean v) v)"
proof -
  let ?N = "length v"
  have v: "vec ?N (nth v) = v" by (rule vec_nth) simp
  have "(\<Sum>j<?N. v ! j) = sum_list v"
    by (simp add: sum_list_sum_nth atLeast0LessThan)
  then have "vec ?N (\<lambda>k. v ! k - 2 * ((\<Sum>j<?N. v ! j) / of_nat ?N))
      = map (\<lambda>a. a - 2 * mean v) v"
    by (intro nth_equalityI) (simp_all add: mean_def)
  with diffuser_vec [OF assms(1) assms(2), of "nth v"] v show ?thesis by simp
qed

subsection \<open>The total probability\<close>

lemma preservingI:
  assumes "\<And>v. length v = N \<Longrightarrow>
     \<exists>w. apply_gate g v = Inr w \<and> length w = N \<and> total_probability w = total_probability v"
  shows "preserving N g"
  using assms by (simp add: preserving_def)

lemma preservingD:
  assumes "preserving N g" "length v = N"
  obtains w where "apply_gate g v = Inr w" "length w = N"
    "total_probability w = total_probability v"
  using assms unfolding preserving_def by blast

lemma preserving_H: "q < n \<Longrightarrow> preserving (2 ^ n) (H q)"
proof (rule preservingI)
  fix v :: "complex list" assume q: "q < n" and "length v = 2 ^ n"
  then have v: "vec (2 ^ n) (nth v) = v" by (simp add: vec_nth)
  have "apply_gate (H q) (vec (2 ^ n) (nth v)) = Inr (vec (2 ^ n) (h_amp q (nth v)))"
    by (rule apply_H_vec [OF q])
  moreover have "total_probability (vec (2 ^ n) (h_amp q (nth v)))
      = total_probability (vec (2 ^ n) (nth v))"
    by (simp add: total_probability_vec norm2_h_amp [OF q])
  ultimately show "\<exists>w. apply_gate (H q) v = Inr w \<and> length w = 2 ^ n
      \<and> total_probability w = total_probability v"
    unfolding v by simp
qed

lemma preserving_X: "q < n \<Longrightarrow> preserving (2 ^ n) (X q)"
proof (rule preservingI)
  fix v :: "complex list" assume q: "q < n" and "length v = 2 ^ n"
  then have v: "vec (2 ^ n) (nth v) = v" by (simp add: vec_nth)
  have "apply_gate (X q) (vec (2 ^ n) (nth v)) = Inr (vec (2 ^ n) (x_amp q (nth v)))"
    by (rule apply_X_vec [OF q])
  moreover have "total_probability (vec (2 ^ n) (x_amp q (nth v)))
      = total_probability (vec (2 ^ n) (nth v))"
    by (simp add: total_probability_vec norm2_x_amp [OF q])
  ultimately show "\<exists>w. apply_gate (X q) v = Inr w \<and> length w = 2 ^ n
      \<and> total_probability w = total_probability v"
    unfolding v by simp
qed

lemma preserving_MCX:
  assumes t: "t < n" and cs: "\<forall>q\<in>set cs. q < n" and d: "distinct (t # cs)"
  shows "preserving (2 ^ n) (MCX cs t)"
proof (rule preservingI)
  fix v :: "complex list" assume "length v = 2 ^ n"
  then have v: "vec (2 ^ n) (nth v) = v" by (simp add: vec_nth)
  have "apply_gate (MCX cs t) (vec (2 ^ n) (nth v)) = Inr (vec (2 ^ n) (mcx_amp cs t (nth v)))"
    by (rule apply_MCX_vec [OF t cs d])
  moreover have "t \<notin> set cs" using d by simp
  then have "total_probability (vec (2 ^ n) (mcx_amp cs t (nth v)))
      = total_probability (vec (2 ^ n) (nth v))"
    by (simp add: total_probability_vec norm2_mcx_amp [OF t])
  ultimately show "\<exists>w. apply_gate (MCX cs t) v = Inr w \<and> length w = 2 ^ n
      \<and> total_probability w = total_probability v"
    unfolding v by simp
qed

lemma preserving_Barrier: "preserving N Barrier"
  by (rule preservingI) simp

lemma preserving_gates:
  assumes "\<forall>g\<in>set gs. preserving N g" "length v = N"
  shows "\<exists>w. apply_gates gs v = Inr w \<and> length w = N
           \<and> total_probability w = total_probability v"
  using assms
proof (induction gs arbitrary: v)
  case Nil
  then show ?case by simp
next
  case (Cons g gs)
  from Cons.prems obtain u where u: "apply_gate g v = Inr u" "length u = N"
      "total_probability u = total_probability v"
    by (auto elim: preservingD)
  from Cons.IH [of u] Cons.prems u(2) obtain w where "apply_gates gs u = Inr w" "length w = N"
      "total_probability w = total_probability u"
    by auto
  with u show ?case by simp
qed

lemma preserving_Instruction:
  "\<forall>g\<in>set gs. preserving N g \<Longrightarrow> preserving N (Instruction name gs)"
  by (rule preservingI) (simp add: preserving_gates)

lemma preserving_diffuser:
  assumes "0 < nqubits c"
  shows "preserving (2 ^ nqubits c) (create_diffuser c)"
proof -
  have "nqubits c - 1 < nqubits c" using assms by simp
  then show ?thesis
    unfolding create_diffuser_def Let_def
    by (intro preserving_Instruction)
       (auto simp: preserving_H preserving_X preserving_Barrier intro!: preserving_MCX)
qed

lemma total_probability_flip:
  assumes "i < length v"
  shows "total_probability (v[i := - v ! i]) = total_probability v"
proof -
  have "probabilities (v[i := - v ! i]) = (probabilities v)[i := probabilities v ! i]"
    using assms by (simp add: probabilities_def map_update)
  then show ?thesis by (simp add: total_probability_def)
qed

lemma preserving_oracle:
  assumes "i < N"
  shows "preserving N (Instruction name [Unitary (oracle_matrix N i)])"
proof (rule preservingI)
  fix v :: "complex list" assume v: "length v = N"
  have "apply_gate (Instruction name [Unitary (oracle_matrix N i)]) v = Inr (v[i := - v ! i])"
    using oracle_matrix_apply [OF assms v] by (simp del: apply_gate.simps(5))
  then show "\<exists>w. apply_gate (Instruction name [Unitary (oracle_matrix N i)]) v = Inr w
      \<and> length w = N \<and> total_probability w = total_probability v"
    using v assms by (simp add: total_probability_flip del: apply_gate.simps)
qed

lemma states_after_preserving:
  assumes "\<forall>g\<in>set gs. preserving N g" "length v = N"
  shows "length (states_after gs v) = length gs
       \<and> (\<forall>w\<in>set (states_after gs v). length w = N
              \<and> total_probability w = total_probability v)"
  using assms
proof (induction gs arbitrary: v)
  case Nil
  then show ?case by simp
next
  case (Cons g gs)
  from Cons.prems obtain u where u: "apply_gate g v = Inr u" "length u = N"
      "total_probability u = total_probability v"
    by (auto elim: preservingD)
  from Cons.IH [of u] Cons.prems u(2)
  have "length (states_after gs u) = length gs
      \<and> (\<forall>w\<in>set (states_after gs u). length w = N
            \<and> total_probability w = total_probability u)"
    by simp
  with u show ?case by simp
qed

lemma total_probability_ground: "total_probability (ground n) = 1"
proof -
  have "ground n = vec (2 ^ n) delta0"
    by (simp add: ground_def vec_def delta0_def)
  moreover have "norm2 (2 ^ n) delta0 = (\<Sum>k::nat<2 ^ n. if k = 0 then 1 else (0::real))"
    unfolding norm2_def by (rule sum.cong) (simp_all add: delta0_def)
  ultimately show ?thesis by (simp add: total_probability_vec)
qed

lemma length_ground [simp]: "length (ground n) = 2 ^ n"
  by (simp add: ground_def)

text \<open>
  Claim C7: the squared magnitudes of the amplitudes sum to 1 after every transform of a
  run: starting from the basis state of index 0, after each Hadamard gate of the initial
  layer, after each oracle and after each diffuser, for every width from 2 on, every
  marked index below \<open>2 ^ n\<close> and every number of rounds. No transform fails: there is
  one state per operation. Amplitudes are exact, so the sum is 1 exactly.
\<close>

theorem total_probability_invariant:
  assumes "marked_index c < 2 ^ nqubits c" and "2 \<le> nqubits c"
  shows "\<exists>oracle. create_comparison_oracle c = Inr oracle
     \<and> length (states_after
          (map H [0..<nqubits c] @ concat (replicate k [oracle, create_diffuser c]))
          (ground (nqubits c)))
        = nqubits c + 2 * k
     \<and> (\<forall>w \<in> set (states_after
          (map H [0..<nqubits c] @ concat (replicate k [oracle, create_diffuser c]))
          (ground (nqubits c))).
          length w = 2 ^ nqubits c \<and> total_probability w = 1)"
proof -
  let ?n = "nqubits c"
  let ?orc = "Instruction ''Oracle(>=)'' [Unitary (oracle_matrix (2 ^ ?n) (marked_index c))]"
  let ?gs = "map H [0..<?n] @ concat (replicate k [?orc, create_diffuser c])"
  have o: "create_comparison_oracle c = Inr ?orc"
    by (rule oracle_in_bounds [OF assms(1)])
  have "preserving (2 ^ ?n) ?orc" by (rule preserving_oracle [OF assms(1)])
  moreover have "preserving (2 ^ ?n) (create_diffuser c)"
    using assms(2) by (intro preserving_diffuser) simp
  ultimately have "\<forall>g\<in>set ?gs. preserving (2 ^ ?n) g"
    by (auto simp: preserving_H)
  from states_after_preserving [OF this length_ground]
  have "length (states_after ?gs (ground ?n)) = length ?gs
      \<and> (\<forall>w\<in>set (states_after ?gs (ground ?n)). length w = 2 ^ ?n \<and> total_probability w = 1)"
    by (simp add: total_probability_ground)
  moreover have "length ?gs = ?n + 2 * k"
    by (simp add: length_concat sum_list_replicate)
  ultimately show ?thesis using o by (intro exI [of _ ?orc]) simp
qed

theorem total_probability_invariant_witness:
  "marked_index (new 5 3) < 2 ^ nqubits (new 5 3) \<and> 2 \<le> nqubits (new 5 3)
   \<and> (\<exists>oracle. create_comparison_oracle (new 5 3) = Inr oracle
     \<and> length (states_after
          (map H [0..<nqubits (new 5 3)] @ concat (replicate 1 [oracle, create_diffuser (new 5 3)]))
          (ground (nqubits (new 5 3))))
        = nqubits (new 5 3) + 2 * 1
     \<and> (\<forall>w \<in> set (states_after
          (map H [0..<nqubits (new 5 3)] @ concat (replicate 1 [oracle, create_diffuser (new 5 3)]))
          (ground (nqubits (new 5 3)))).
          length w = 2 ^ nqubits (new 5 3) \<and> total_probability w = 1))"
proof -
  have a: "marked_index (new 5 3) < 2 ^ nqubits (new 5 3)" by (simp add: marked_index_def bit_length_code_simps)
  have b: "2 \<le> nqubits (new 5 3)" by (simp add: marked_index_def bit_length_code_simps)
  show ?thesis
    using total_probability_invariant [OF a b, of 1] a b by blast
qed

lemma probabilities_uminus: "probabilities (map uminus v) = probabilities v"
  by (simp add: probabilities_def)

lemma negated_reflection: "map (\<lambda>a. a - 2 * mean v) v = map uminus (reflect_about_mean v)"
  by (simp add: reflect_about_mean_def)

text \<open>
  Claim C4 says that the gate sequence of the diffuser acts as the reflection
  \<open>a \<mapsto> 2 \<cdot> mean - a\<close>. On two qubits and the basis state of index 0 the gate sequence
  gives \<open>(1/2, -1/2, -1/2, -1/2)\<close> and the reflection \<open>(-1/2, 1/2, 1/2, 1/2)\<close>: the two
  differ by 1 at index 0.
\<close>

theorem diffuser_differs_from_reflection:
  "apply_gate (create_diffuser (new 5 3)) [1, 0, 0, 0] = Inr [1/2, - 1/2, - 1/2, - 1/2]
   \<and> reflect_about_mean [1, 0, 0, 0] = [- 1/2, 1/2, 1/2, 1/2]
   \<and> cmod ([1/2, - 1/2, - 1/2, - 1/2] ! 0 - [- 1/2, 1/2, 1/2, 1/2] ! 0) = 1"
proof -
  have "apply_gate (create_diffuser (new 5 3)) [1, 0, 0, 0]
      = Inr (map (\<lambda>a. a - 2 * mean [1, 0, 0, 0]) [1, 0, 0, 0])"
    by (rule diffuser_apply) (simp_all add: bit_length_code_simps)
  then show ?thesis
    by (simp add: mean_def reflect_about_mean_def)
qed

text \<open>
  Claim C4, amended: for every width \<open>n \<ge> 2\<close> the gate sequence of the diffuser acts on
  every state vector as \<open>a \<mapsto> a - 2 \<cdot> mean\<close>, the negative of the reflection about the
  uniform superposition; the two agree up to the global phase \<open>-1\<close>, so the probabilities
  of the outcomes are the same. The diffuser depends on the width only, not on the marked
  index nor on any other field.
\<close>

theorem diffuser_is_negated_reflection:
  assumes "2 \<le> nqubits c" and "length v = 2 ^ nqubits c"
  shows "apply_gate (create_diffuser c) v = Inr (map (\<lambda>a. a - 2 * mean v) v)
     \<and> apply_gate (create_diffuser c) v = Inr (map uminus (reflect_about_mean v))
     \<and> map_sum id probabilities (apply_gate (create_diffuser c) v)
         = Inr (probabilities (reflect_about_mean v))
     \<and> create_diffuser (c\<lparr>number_1 := a, number_2 := b, diff := d, nstates := s, qc := g\<rparr>)
         = create_diffuser c"
proof -
  have "0 < nqubits c" using assms(1) by simp
  from diffuser_apply [OF this assms(2)]
  have "apply_gate (create_diffuser c) v = Inr (map (\<lambda>a. a - 2 * mean v) v)" .
  then show ?thesis
    by (simp add: negated_reflection probabilities_uminus create_diffuser_def)
qed

theorem diffuser_is_negated_reflection_witness:
  "2 \<le> nqubits (new 5 3) \<and> length [1/2, 1/2, - 1/2, 1/2 :: complex] = 2 ^ nqubits (new 5 3)
   \<and> apply_gate (create_diffuser (new 5 3)) [1/2, 1/2, - 1/2, 1/2] = Inr [0, 0, - 1, 0]"
proof -
  have a: "2 \<le> nqubits (new 5 3)" by (simp add: marked_index_def bit_length_code_simps)
  have b: "length [1/2, 1/2, - 1/2, 1/2 :: complex] = 2 ^ nqubits (new 5 3)"
    by (simp add: marked_index_def bit_length_code_simps)
  show ?thesis
    using diffuser_is_negated_reflection [OF a b] a b by (simp add: mean_def)
qed

end
